theory Spec2Isabelle
  imports Main "HOL-Library.Multiset" "HOL-Library.Word" "HOL-Library.Log_Nat"
begin

section \<open>Python values used by the client and the server\<close>

text \<open>
  The exceptions that the modelled methods can raise.  A method that mutates its object
  before raising keeps the mutation, so the stateful operations below return the state
  they leave behind together with the exception, if any.
\<close>

datatype error =
    IndexError
  | ValueError
  | StopIteration
  | OverflowError
  | ZeroDivisionError
  | ConnectionResetError
  | RuntimeError

type_synonym byte = "8 word"

text \<open>
  Subscripting a list of length \<open>n\<close> with a Python integer: a negative subscript counts
  from the end, anything outside \<open>-n .. n-1\<close> raises IndexError (\<open>None\<close> here).
\<close>

definition py_index :: "nat \<Rightarrow> int \<Rightarrow> nat option" where
  "py_index n i =
     (if 0 \<le> i \<and> i < int n then Some (nat i)
      else if - int n \<le> i \<and> i < 0 then Some (nat (int n + i))
      else None)"

text \<open>
  \<open>q[i], q[j] = q[j], q[i]\<close>: the right-hand side is read first (\<open>q[j]\<close>, then \<open>q[i]\<close>),
  so an out-of-range subscript raises before anything is written.
\<close>

definition swap_items :: "'a list \<Rightarrow> int \<Rightarrow> int \<Rightarrow> error + 'a list" where
  "swap_items q i j =
     (case py_index (length q) j of
        None \<Rightarrow> Inl IndexError
      | Some b \<Rightarrow>
          (case py_index (length q) i of
             None \<Rightarrow> Inl IndexError
           | Some a \<Rightarrow> Inr (q[a := q ! b, b := q ! a])))"

text \<open>\<open>list.insert(index, x)\<close>: the index is clamped to \<open>0 .. len\<close> after the negative wrap.\<close>

definition py_insert :: "int \<Rightarrow> 'a \<Rightarrow> 'a list \<Rightarrow> 'a list" where
  "py_insert i x xs =
     (let n = int (length xs);
          j = (if i < 0 then max 0 (n + i) else min n i)
      in take (nat j) xs @ x # drop (nat j) xs)"

subsection \<open>Python floats\<close>

text \<open>
  A finite Python float is an IEEE binary64 number; it is represented here by its exact
  rational value.  \<open>fl64\<close> rounds a rational to the nearest binary64 number, ties to the
  even significand, with gradual underflow; \<open>None\<close> stands for an overflow to infinity.
  \<open>exponent2 a\<close> is the \<open>e\<close> with \<open>2^e \<le> a < 2^(e+1)\<close> for a positive \<open>a\<close>.
\<close>

definition round_half_even :: "rat \<Rightarrow> int" where
  "round_half_even x =
     (let f = \<lfloor>x\<rfloor>; d = x - of_int f
      in if d < 1 / 2 then f
         else if 1 / 2 < d then f + 1
         else if even f then f else f + 1)"

definition exponent2 :: "rat \<Rightarrow> int" where
  "exponent2 a =
     (case quotient_of a of (p, q) \<Rightarrow>
        (let e0 = bitlen p - bitlen q
         in if 2 powi e0 \<le> a then e0 else e0 - 1))"

definition fl64_round :: "rat \<Rightarrow> rat" where
  "fl64_round a =
     (let e = max (exponent2 a) (- 1022);
          u = 2 powi (e - 52)
      in of_int (round_half_even (a / u)) * u)"

definition fl64_pos :: "rat \<Rightarrow> rat option" where
  "fl64_pos a = (let r = fl64_round a in if r < 2 ^ 1024 then Some r else None)"

definition fl64 :: "rat \<Rightarrow> rat option" where
  "fl64 x =
     (if x = 0 then Some 0
      else if 0 < x then fl64_pos x
      else map_option uminus (fl64_pos (- x)))"

text \<open>
  \<open>a / b\<close> on two ints is the correctly rounded quotient (ZeroDivisionError, or
  OverflowError when the quotient is too large for a float); an int operand of a float
  operation is converted first (OverflowError when too large); a float product that
  overflows is infinite; \<open>round(x)\<close>, \<open>int(x)\<close> and \<open>math.ceil(x)\<close> of a finite float are
  exact integers.
\<close>

definition true_div :: "int \<Rightarrow> int \<Rightarrow> error + rat" where
  "true_div a b =
     (if b = 0 then Inl ZeroDivisionError
      else case fl64 (of_int a / of_int b) of
             None \<Rightarrow> Inl OverflowError
           | Some x \<Rightarrow> Inr x)"

definition int_to_float :: "int \<Rightarrow> error + rat" where
  "int_to_float n = (case fl64 (of_int n) of None \<Rightarrow> Inl OverflowError | Some x \<Rightarrow> Inr x)"

definition float_mul :: "rat \<Rightarrow> rat \<Rightarrow> rat option" where
  "float_mul x y = fl64 (x * y)"

definition py_round :: "rat \<Rightarrow> int" where
  "py_round x = round_half_even x"

definition py_trunc :: "rat \<Rightarrow> int" where
  "py_trunc x = (if 0 \<le> x then \<lfloor>x\<rfloor> else \<lceil>x\<rceil>)"

definition py_ceil :: "rat \<Rightarrow> int" where
  "py_ceil x = \<lceil>x\<rceil>"

subsection \<open>Bytes\<close>

text \<open>
  \<open>n.to_bytes(4, "little")\<close> raises OverflowError outside \<open>0 .. 2^32 - 1\<close>;
  \<open>int.from_bytes(bs, "little")\<close>; \<open>str.encode("utf-8")\<close> of an ASCII string.
\<close>

definition to_bytes4 :: "int \<Rightarrow> error + byte list" where
  "to_bytes4 n =
     (if 0 \<le> n \<and> n < 2 ^ 32
      then Inr [word_of_int n, word_of_int (n div 256),
                word_of_int (n div 65536), word_of_int (n div 16777216)]
      else Inl OverflowError)"

fun from_bytes :: "byte list \<Rightarrow> int" where
  "from_bytes [] = 0"
| "from_bytes (b # bs) = uint b + 256 * from_bytes bs"

definition encode :: "string \<Rightarrow> byte list" where
  "encode s = map (\<lambda>c. of_nat (of_char c)) s"

section \<open>Sockets\<close>

text \<open>
  One end of a TCP connection: \<open>outgoing\<close> are the bytes handed to the peer so far, in
  order; \<open>incoming\<close> are the bytes from the peer that are not yet read, after which the
  peer has closed.  The \<open>n\<close>-th call of \<open>send\<close> or \<open>recv\<close> transfers at most
  \<open>grant n\<close> bytes; \<open>send\<close> returns the number of bytes taken, \<open>recv\<close> the bytes read
  (\<open>b""\<close> when nothing is left).
\<close>

record socket =
  outgoing :: "byte list"
  incoming :: "byte list"
  grant :: "nat \<Rightarrow> nat"
  calls :: nat

definition sock_send :: "byte list \<Rightarrow> socket \<Rightarrow> nat \<times> socket" where
  "sock_send data s =
     (let m = min (length data) (grant s (calls s))
      in (m, s\<lparr>outgoing := outgoing s @ take m data, calls := Suc (calls s)\<rparr>))"

definition sock_recv :: "int \<Rightarrow> socket \<Rightarrow> byte list \<times> socket" where
  "sock_recv bufsize s =
     (let m = min (min (nat bufsize) (length (incoming s))) (grant s (calls s))
      in (take m (incoming s), s\<lparr>incoming := drop m (incoming s), calls := Suc (calls s)\<rparr>))"

text \<open>
  The \<open>*_tcp_send\<close> and \<open>*_tcp_recv\<close> methods of clienthandler.py, controller.py and
  mediaplayer.py are the same code up to the exception they raise on a transfer of zero
  bytes (ConnectionResetError on the server, RuntimeError on the client).
\<close>

function tcp_send_loop :: "error \<Rightarrow> byte list \<Rightarrow> int \<Rightarrow> nat \<Rightarrow> socket \<Rightarrow> socket \<times> error option" where
  "tcp_send_loop broken data buf_size total_sent s =
     (if int total_sent < buf_size then
        (case sock_send (drop total_sent data) s of
           (sent, s') \<Rightarrow>
             if sent = 0 then (s', Some broken)
             else tcp_send_loop broken data buf_size (total_sent + sent) s')
      else (s, None))"
  by pat_completeness auto
termination
  by (relation "measure (\<lambda>(broken, data, buf_size, total_sent, s). nat (buf_size - int total_sent))")
     auto

function tcp_recv_loop :: "error \<Rightarrow> int \<Rightarrow> byte list \<Rightarrow> socket \<Rightarrow> (error + byte list) \<times> socket" where
  "tcp_recv_loop broken buf_size received s =
     (if int (length received) < buf_size then
        (case sock_recv (buf_size - int (length received)) s of
           (chunk, s') \<Rightarrow>
             if chunk = [] then (Inl broken, s')
             else tcp_recv_loop broken buf_size (received @ chunk) s')
      else (Inr received, s))"
  by pat_completeness auto
termination
  by (relation "measure (\<lambda>(broken, buf_size, received, s). nat (buf_size - int (length received)))")
     auto

definition tcp_send :: "error \<Rightarrow> byte list \<Rightarrow> int \<Rightarrow> socket \<Rightarrow> socket \<times> error option" where
  "tcp_send broken data buf_size s = tcp_send_loop broken data buf_size 0 s"

definition tcp_recv :: "error \<Rightarrow> int \<Rightarrow> socket \<Rightarrow> (error + byte list) \<times> socket" where
  "tcp_recv broken buf_size s = tcp_recv_loop broken buf_size [] s"

section \<open>Song (song.py)\<close>

text \<open>
  The fields of class Song; \<open>duration_string\<close> is computed from \<open>duration\<close> by the
  constructor and is not stored separately here.  Song defines no \<open>__eq__\<close>.
\<close>

record song =
  song_id :: int
  song_name :: string
  artist_name :: string
  duration :: int
  image_binary :: "byte list"

section \<open>SongQueue (mediaplayer.py)\<close>

text \<open>
  \<open>_queue\<close> holds Song objects.  \<open>_ordered_queue\<close> is a Python list that receives
  \<open>song.song_id\<close> from \<open>append_to_queue\<close> and the Song object itself from
  \<open>insert_to_queue\<close>, so its entries are of either kind.
\<close>

datatype entry = Id int | Obj song

record song_queue =
  queue :: "song list"
  ordered_queue :: "entry list"

definition empty_queue :: song_queue where
  "empty_queue = \<lparr>queue = [], ordered_queue = []\<rparr>"

definition clear_queue :: "song_queue \<Rightarrow> song_queue" where
  "clear_queue sq = sq\<lparr>queue := [], ordered_queue := []\<rparr>"

definition insert_to_queue :: "int \<Rightarrow> song \<Rightarrow> song_queue \<Rightarrow> song_queue" where
  "insert_to_queue index s sq =
     sq\<lparr>queue := py_insert index s (queue sq),
        ordered_queue := py_insert index (Obj s) (ordered_queue sq)\<rparr>"

definition append_to_queue :: "song \<Rightarrow> song_queue \<Rightarrow> song_queue" where
  "append_to_queue s sq =
     sq\<lparr>queue := queue sq @ [s],
        ordered_queue := ordered_queue sq @ [Id (song_id s)]\<rparr>"

text \<open>The insertion-order entry that \<open>append_to_queue\<close> stores for a song.\<close>

definition entry_of :: "song \<Rightarrow> entry" where
  "entry_of s = Id (song_id s)"

text \<open>The three songs of test\_client.py, and queues built from them.\<close>

definition test_song_1 :: song where
  "test_song_1 = \<lparr>song_id = 1, song_name = ''On & On'', artist_name = ''Cartoon'',
                   duration = 207, image_binary = encode ''test''\<rparr>"

definition test_song_2 :: song where
  "test_song_2 = \<lparr>song_id = 2, song_name = ''Whatever'', artist_name = ''Cartoon'',
                   duration = 205, image_binary = encode ''test''\<rparr>"

definition test_song_3 :: song where
  "test_song_3 = \<lparr>song_id = 3, song_name = ''Xenogenesis'', artist_name = ''TheFatRat'',
                   duration = 233, image_binary = encode ''test''\<rparr>"

definition queue_123 :: song_queue where
  "queue_123 = \<lparr>queue = [test_song_1, test_song_2, test_song_3],
                 ordered_queue = [Id 1, Id 2, Id 3]\<rparr>"

definition queue_231 :: song_queue where
  "queue_231 = \<lparr>queue = [test_song_2, test_song_3, test_song_1],
                 ordered_queue = [Id 1, Id 2, Id 3]\<rparr>"

text \<open>
  \<open>pop_from_queue\<close>: \<open>self._queue[index]\<close> is read first (IndexError), then
  \<open>list.remove\<close> deletes the first entry equal to the identifier (ValueError when there is
  none; an integer never equals a Song object), then \<open>list.pop(index)\<close>.
\<close>

definition pop_from_queue :: "int \<Rightarrow> song_queue \<Rightarrow> song_queue \<times> error option" where
  "pop_from_queue index sq =
     (case py_index (length (queue sq)) index of
        None \<Rightarrow> (sq, Some IndexError)
      | Some a \<Rightarrow>
          (let e = Id (song_id (queue sq ! a)) in
           if e \<in> set (ordered_queue sq)
           then (sq\<lparr>ordered_queue := remove1 e (ordered_queue sq),
                    queue := take a (queue sq) @ drop (Suc a) (queue sq)\<rparr>, None)
           else (sq, Some ValueError)))"

text \<open>
  \<open>shuffle\<close>.  \<open>rand i\<close> is the number that \<open>random.choice\<close> draws in iteration \<open>i\<close>;
  the element chosen from \<open>r\<close> is \<open>r ! (rand i mod len(r))\<close>, and \<open>random.choice\<close> of an
  empty list raises IndexError.
\<close>

fun shuffle_loop ::
  "(nat \<Rightarrow> nat) \<Rightarrow> int \<Rightarrow> int list \<Rightarrow> nat list \<Rightarrow> song list \<Rightarrow> song list \<times> error option"
where
  "shuffle_loop rand k r [] q = (q, None)"
| "shuffle_loop rand k r (i # is) q =
     (if int i \<noteq> k then
        (if r = [] then (q, Some IndexError)
         else
           (case swap_items q (int i) (r ! (rand i mod length r)) of
              Inl e \<Rightarrow> (q, Some e)
            | Inr q' \<Rightarrow> shuffle_loop rand k r is q'))
      else shuffle_loop rand k r is q)"

definition shuffle :: "(nat \<Rightarrow> nat) \<Rightarrow> int \<Rightarrow> song_queue \<Rightarrow> song_queue \<times> error option" where
  "shuffle rand k sq =
     (if queue sq \<noteq> [] then
        (let n = length (queue sq);
             r = [0 .. k - 1] @ [k + 1 .. int n - 1]
         in case shuffle_loop rand k r [0 ..< n] (queue sq) of
              (q', e) \<Rightarrow> (sq\<lparr>queue := q'\<rparr>, e))
      else (sq, None))"

text \<open>
  \<open>unshuffle\<close>.  \<open>find_song\<close> is the generator handed to \<open>next\<close>: the first index whose
  song has the wanted identifier; \<open>next\<close> raises StopIteration when there is none.
  \<open>value.song_id == entry\<close> is false when the entry is a Song object.
\<close>

fun id_matches :: "song \<Rightarrow> entry \<Rightarrow> bool" where
  "id_matches s (Id n) = (song_id s = n)"
| "id_matches s (Obj t) = False"

fun find_song :: "song list \<Rightarrow> entry \<Rightarrow> nat option" where
  "find_song [] e = None"
| "find_song (s # ss) e =
     (if id_matches s e then Some 0 else map_option Suc (find_song ss e))"

fun unshuffle_loop ::
  "int \<Rightarrow> entry list \<Rightarrow> nat list \<Rightarrow> song list \<Rightarrow> song list \<times> error option"
where
  "unshuffle_loop k ord [] q = (q, None)"
| "unshuffle_loop k ord (i # is) q =
     (if i < length ord then
        (case find_song q (ord ! i) of
           None \<Rightarrow> (q, Some StopIteration)
         | Some j \<Rightarrow>
             (if int i \<noteq> k \<and> int j \<noteq> k then
                (case swap_items q (int i) (int j) of
                   Inl e \<Rightarrow> (q, Some e)
                 | Inr q' \<Rightarrow> unshuffle_loop k ord is q')
              else unshuffle_loop k ord is q))
      else (q, Some IndexError))"

definition unshuffle :: "int \<Rightarrow> song_queue \<Rightarrow> song_queue \<times> error option" where
  "unshuffle k sq =
     (if queue sq \<noteq> [] then
        (case unshuffle_loop k (ordered_queue sq) [0 ..< length (queue sq)] (queue sq) of
           (q', e) \<Rightarrow> (sq\<lparr>queue := q'\<rparr>, e))
      else (sq, None))"

section \<open>Player (player.py)\<close>

text \<open>
  The attributes of Player.  \<open>device\<close> lists the packets written to the audio output
  stream and \<open>progress_sent\<close> the arguments of the progress callback, both in order.
  The threading events are booleans (set or clear); \<open>end_of_stream_event\<close> and
  \<open>terminate_stream_event\<close> are the events that MediaPlayer registers as its
  \<open>_next_index\<close> and \<open>_currently_streaming\<close>.
\<close>

record player =
  song_data :: "byte list list"
  song_data_length :: int
  current_index :: int
  last_index :: int
  stop :: bool
  stream_has_started :: bool
  stream_loop_continue :: bool
  play_pause :: bool
  start_stream_flag :: bool
  end_of_stream_event :: bool
  terminate_stream_event :: bool
  device :: "byte list list"
  progress_sent :: "int list"

definition STOP_CONDITION :: "byte list" where
  "STOP_CONDITION = encode ''END_OF_FILE''"

definition set_song_data_length :: "int \<Rightarrow> player \<Rightarrow> player" where
  "set_song_data_length len p = p\<lparr>song_data_length := len, last_index := len - 1\<rparr>"

definition receive_packet :: "byte list \<Rightarrow> player \<Rightarrow> player" where
  "receive_packet packet p = p\<lparr>song_data := song_data p @ [packet]\<rparr>"

definition set_progress :: "int \<Rightarrow> player \<Rightarrow> player \<times> error option" where
  "set_progress val p =
     (let v = (if val < 0 then 0 else if 1000 < val then 1000 else val) in
      case true_div v 1000 of
        Inl e \<Rightarrow> (p, Some e)
      | Inr x \<Rightarrow>
          (case int_to_float (song_data_length p - 1) of
             Inl e \<Rightarrow> (p, Some e)
           | Inr y \<Rightarrow>
               (case float_mul x y of
                  None \<Rightarrow> (p, Some OverflowError)
                | Some z \<Rightarrow>
                    (let index_from_percent = py_round z
                     in (p\<lparr>current_index :=
                              (if index_from_percent < 0 then 0 else index_from_percent)\<rparr>,
                         None)))))"

definition set_start_conditions :: "player \<Rightarrow> player" where
  "set_start_conditions p =
     p\<lparr>stream_has_started := True, stop := False, play_pause := True, current_index := 0\<rparr>"

definition set_end_conditions :: "player \<Rightarrow> player" where
  "set_end_conditions p =
     p\<lparr>song_data := [], stream_has_started := False, current_index := 0,
       terminate_stream_event := True\<rparr>"

text \<open>
  One stream of \<open>stream_loop\<close>, run against the buffer as it stands.  \<open>Ended\<close>: the inner
  loop left through \<open>end = True\<close> and \<open>_set_end_conditions\<close>.  \<open>Waiting\<close>: the loop is
  held up until another thread acts: it polls after an IndexError because the buffer has
  no packet at the cursor yet, or it waits on the play/pause event.  \<open>Raised\<close>: an
  exception that neither \<open>except\<close> clause catches left \<open>stream_loop\<close>.  \<open>Exited\<close>:
  \<open>exit_stream_loop\<close> was called.  Errors of the audio device are not modelled.
\<close>

datatype loop_exit = Ended | Waiting | Exited | Raised error

function stream_inner :: "int \<Rightarrow> player \<Rightarrow> player \<times> loop_exit" where
  "stream_inner previous_progress p =
     (if stop p then (set_end_conditions p, Ended)
      else
        (case py_index (length (song_data p)) (current_index p) of
           None \<Rightarrow> (p, Waiting)
         | Some a \<Rightarrow>
             if song_data p ! a = STOP_CONDITION then (set_end_conditions p, Ended)
             else
               (let p1 = p\<lparr>device := device p @ [song_data p ! a]\<rparr> in
                case true_div (current_index p1 * 1000) (last_index p1) of
                  Inl e \<Rightarrow> (p1, Raised e)
                | Inr x \<Rightarrow>
                    (let progress_from_index = py_round x;
                         p2 = (if progress_from_index \<noteq> previous_progress
                               then p1\<lparr>progress_sent := progress_sent p1 @ [progress_from_index]\<rparr>
                               else p1)
                     in if \<not> play_pause p2 then (p2, Waiting)
                        else
                          (let p3 = p2\<lparr>current_index := current_index p2 + 1\<rparr> in
                           case py_index (length (song_data p3)) (current_index p3) of
                             None \<Rightarrow> (p3, Waiting)
                           | Some b \<Rightarrow>
                               stream_inner progress_from_index
                                 (if song_data p3 ! b = STOP_CONDITION
                                  then p3\<lparr>end_of_stream_event := True\<rparr>
                                  else p3))))))"
  by pat_completeness auto
termination
  by (relation "measure (\<lambda>(previous_progress, p). nat (int (length (song_data p)) - current_index p))")
     (auto simp: py_index_def split: if_splits)

definition stream_loop_once :: "player \<Rightarrow> player \<times> loop_exit" where
  "stream_loop_once p =
     (let p0 = set_start_conditions (p\<lparr>start_stream_flag := False\<rparr>)
      in if \<not> stream_loop_continue p0 then (p0, Exited) else stream_inner (- 1) p0)"

section \<open>MediaPlayer (mediaplayer.py)\<close>

text \<open>
  The attributes of MediaPlayer that the modelled methods use.  Its \<open>_currently_streaming\<close>
  event is the player's \<open>terminate_stream_event\<close>: set while no stream is running.
  The display callbacks are not modelled.
\<close>

record mediaplayer =
  player :: player
  mp_queue :: song_queue
  current_song_index :: int
  repeat_state :: int
  shuffle_state :: int
  stream_client :: socket
  start_read_flag :: bool
  currently_reading :: bool
  reconnect :: bool

definition currently_streaming :: "mediaplayer \<Rightarrow> bool" where
  "currently_streaming mp = terminate_stream_event (player mp)"

definition queue_start :: "mediaplayer \<Rightarrow> int" where
  "queue_start mp =
     (if \<not> currently_streaming mp then current_song_index mp + 1 else current_song_index mp)"

definition move_up :: "int \<Rightarrow> mediaplayer \<Rightarrow> mediaplayer \<times> error option" where
  "move_up song_index mp =
     (if queue_start mp < song_index then
        (case swap_items (queue (mp_queue mp)) song_index (song_index - 1) of
           Inl e \<Rightarrow> (mp, Some e)
         | Inr q' \<Rightarrow> (mp\<lparr>mp_queue := (mp_queue mp)\<lparr>queue := q'\<rparr>\<rparr>, None))
      else (mp, None))"

definition move_down :: "int \<Rightarrow> mediaplayer \<Rightarrow> mediaplayer \<times> error option" where
  "move_down song_index mp =
     (if song_index < int (length (queue (mp_queue mp))) - 1 then
        (case swap_items (queue (mp_queue mp)) song_index (song_index + 1) of
           Inl e \<Rightarrow> (mp, Some e)
         | Inr q' \<Rightarrow> (mp\<lparr>mp_queue := (mp_queue mp)\<lparr>queue := q'\<rparr>\<rparr>, None))
      else (mp, None))"

text \<open>
  A socket on which nothing has happened yet and which transfers whatever is asked for,
  the Player and the MediaPlayer as their constructors leave them, and a MediaPlayer that
  is streaming the first of the three test songs.
\<close>

definition fresh_socket :: socket where
  "fresh_socket = \<lparr>outgoing = [], incoming = [], grant = (\<lambda>n. 4096), calls = 0\<rparr>"

definition new_player :: player where
  "new_player =
     \<lparr>song_data = [], song_data_length = 0, current_index = 0, last_index = 0,
      stop = False, stream_has_started = False, stream_loop_continue = True,
      play_pause = False, start_stream_flag = False, end_of_stream_event = False,
      terminate_stream_event = False, device = [], progress_sent = []\<rparr>"

definition new_mediaplayer :: mediaplayer where
  "new_mediaplayer =
     \<lparr>player = new_player, mp_queue = empty_queue, current_song_index = 0,
      repeat_state = 0, shuffle_state = 0, stream_client = fresh_socket,
      start_read_flag = False, currently_reading = False, reconnect = False\<rparr>"

definition streaming_123 :: mediaplayer where
  "streaming_123 = new_mediaplayer\<lparr>mp_queue := queue_123\<rparr>"

definition type_data :: "byte list" where
  "type_data = encode ''data''"

definition type_exit :: "byte list" where
  "type_exit = encode ''exit''"

definition mp_streaming_tcp_recv :: "int \<Rightarrow> mediaplayer \<Rightarrow> (error + byte list) \<times> mediaplayer" where
  "mp_streaming_tcp_recv bufsize mp =
     (case tcp_recv RuntimeError bufsize (stream_client mp) of
        (r, s) \<Rightarrow> (r, mp\<lparr>stream_client := s\<rparr>))"

text \<open>The \<open>for i in range(song_data_length)\<close> loop of \<open>_read_from_server\<close>.\<close>

fun read_packets :: "nat \<Rightarrow> mediaplayer \<Rightarrow> mediaplayer \<times> error option" where
  "read_packets 0 mp = (mp, None)"
| "read_packets (Suc n) mp =
     (case mp_streaming_tcp_recv 4 mp of
        (Inl e, mp1) \<Rightarrow> (mp1, Some e)
      | (Inr current_type, mp1) \<Rightarrow>
          if current_type = type_data then
            (case mp_streaming_tcp_recv 4096 mp1 of
               (Inl e, mp2) \<Rightarrow> (mp2, Some e)
             | (Inr current_packet, mp2) \<Rightarrow>
                 read_packets n (mp2\<lparr>player := receive_packet current_packet (player mp2)\<rparr>))
          else if current_type = type_exit then (mp1, None)
          else read_packets n mp1)"

text \<open>
  One pass of the \<open>while True\<close> body of \<open>_read_from_server\<close>, once the start flag is
  set.  The RuntimeError of \<open>streaming_tcp_recv\<close> is not a ConnectionResetError, so the
  \<open>except\<close> clause does not catch it; the \<open>finally\<close> clause runs in every case.
\<close>

definition read_from_server :: "mediaplayer \<Rightarrow> mediaplayer \<times> error option" where
  "read_from_server mp =
     (let mp0 = mp\<lparr>currently_reading := False, start_read_flag := False\<rparr>;
          r = (case mp_streaming_tcp_recv 4 mp0 of
                 (Inl e, mp1) \<Rightarrow> (mp1, Some e)
               | (Inr song_data_length_bytes, mp1) \<Rightarrow>
                   (let len = from_bytes song_data_length_bytes
                    in read_packets (nat len)
                         (mp1\<lparr>player := set_song_data_length len (player mp1)\<rparr>)))
      in case r of
           (mp2, e) \<Rightarrow>
             (mp2\<lparr>player := receive_packet STOP_CONDITION (player mp2),
                  currently_reading := True\<rparr>, e))"

section \<open>Controller (controller.py)\<close>

text \<open>
  The part of \<open>_search_request_handler\<close> that receives one serialized song from the
  control connection.
\<close>

definition ctl_communication_tcp_recv :: "int \<Rightarrow> socket \<Rightarrow> (error + byte list) \<times> socket" where
  "ctl_communication_tcp_recv bufsize s = tcp_recv RuntimeError bufsize s"

fun recv_chunks :: "nat \<Rightarrow> byte list \<Rightarrow> socket \<Rightarrow> (error + byte list) \<times> socket" where
  "recv_chunks 0 serialized_song s = (Inr serialized_song, s)"
| "recv_chunks (Suc n) serialized_song s =
     (case ctl_communication_tcp_recv 1024 s of
        (Inl e, s') \<Rightarrow> (Inl e, s')
      | (Inr chunk, s') \<Rightarrow> recv_chunks n (serialized_song @ chunk) s')"

definition recv_serialized_song :: "socket \<Rightarrow> (error + byte list) \<times> socket" where
  "recv_serialized_song s =
     (case ctl_communication_tcp_recv 4 s of
        (Inl e, s1) \<Rightarrow> (Inl e, s1)
      | (Inr data_length_bytes, s1) \<Rightarrow>
          (case recv_chunks (nat (from_bytes data_length_bytes - 1)) [] s1 of
             (Inl e, s2) \<Rightarrow> (Inl e, s2)
           | (Inr serialized_song, s2) \<Rightarrow>
               (case ctl_communication_tcp_recv 4 s2 of
                  (Inl e, s3) \<Rightarrow> (Inl e, s3)
                | (Inr last_packet_length_bytes, s3) \<Rightarrow>
                    (case ctl_communication_tcp_recv (from_bytes last_packet_length_bytes) s3 of
                       (Inl e, s4) \<Rightarrow> (Inl e, s4)
                     | (Inr last_packet, s4) \<Rightarrow> (Inr (serialized_song @ last_packet), s4)))))"

section \<open>ClientHandler (clienthandler.py)\<close>

text \<open>
  An opened wave file: the bytes of one frame and the audio data not yet read.
  \<open>catalog\<close> stands for the songs table and the songs directory: the wave file of a
  song identifier, if the table has a row for it.
\<close>

record wave =
  frame_size :: nat
  audio :: "byte list"

definition getnframes :: "wave \<Rightarrow> int" where
  "getnframes w = int (length (audio w) div frame_size w)"

definition readframes :: "nat \<Rightarrow> wave \<Rightarrow> byte list \<times> wave" where
  "readframes n w =
     (let m = n * frame_size w in (take m (audio w), w\<lparr>audio := drop m (audio w)\<rparr>))"

record client_handler =
  stop_send :: bool
  streaming_socket :: socket
  communication_socket :: socket
  catalog :: "int \<Rightarrow> wave option"

definition chunk :: nat where
  "chunk = 1024"

definition streaming_tcp_send :: "byte list \<Rightarrow> int \<Rightarrow> client_handler \<Rightarrow> client_handler \<times> error option" where
  "streaming_tcp_send data buf_size h =
     (case tcp_send ConnectionResetError data buf_size (streaming_socket h) of
        (s, e) \<Rightarrow> (h\<lparr>streaming_socket := s\<rparr>, e))"

definition communication_tcp_send :: "byte list \<Rightarrow> int \<Rightarrow> client_handler \<Rightarrow> client_handler \<times> error option" where
  "communication_tcp_send data buf_size h =
     (case tcp_send ConnectionResetError data buf_size (communication_socket h) of
        (s, e) \<Rightarrow> (h\<lparr>communication_socket := s\<rparr>, e))"

definition get_song_and_length :: "client_handler \<Rightarrow> int \<Rightarrow> error + (wave \<times> int) option" where
  "get_song_and_length h sid =
     (case catalog h sid of
        None \<Rightarrow> Inr None
      | Some song_bytes \<Rightarrow>
          (case true_div (getnframes song_bytes) (int chunk) of
             Inl e \<Rightarrow> Inl e
           | Inr x \<Rightarrow> Inr (Some (song_bytes, py_trunc x))))"

text \<open>
  The \<open>while\<close> loop of \<open>_send_song_data\<close>.  \<open>_stop_send\<close> is written by the control
  loop, which runs in another thread: \<open>env i\<close> tells whether the control loop has set the
  flag between the previous reading of the flag and the \<open>i\<close>-th one.
\<close>

function send_packets ::
  "(nat \<Rightarrow> bool) \<Rightarrow> nat \<Rightarrow> byte list \<Rightarrow> wave \<Rightarrow> client_handler \<Rightarrow> client_handler \<times> error option"
where
  "send_packets env i current_packet song_bytes h =
     (if length current_packet = chunk * 4 then
        (let h1 = h\<lparr>stop_send := (stop_send h \<or> env i)\<rparr> in
         if stop_send h1 then streaming_tcp_send type_exit 4 (h1\<lparr>stop_send := False\<rparr>)
         else
           (case streaming_tcp_send type_data 4 h1 of
              (h2, Some e) \<Rightarrow> (h2, Some e)
            | (h2, None) \<Rightarrow>
                (case streaming_tcp_send current_packet 4096 h2 of
                   (h3, Some e) \<Rightarrow> (h3, Some e)
                 | (h3, None) \<Rightarrow>
                     (case readframes chunk song_bytes of
                        (next_packet, rest) \<Rightarrow> send_packets env (Suc i) next_packet rest h3))))
      else (h, None))"
  by pat_completeness auto
termination
  by (relation "measure (\<lambda>(env, i, current_packet, song_bytes, h).
         length (audio song_bytes) + (if length current_packet = chunk * 4 then 1 else 0))")
     (auto simp: readframes_def chunk_def Let_def)

definition send_song_data :: "(nat \<Rightarrow> bool) \<Rightarrow> int \<Rightarrow> client_handler \<Rightarrow> client_handler \<times> error option" where
  "send_song_data env sid h =
     (case get_song_and_length h sid of
        Inl e \<Rightarrow> (h, Some e)
      | Inr (Some (song_bytes, data_length)) \<Rightarrow>
          (case to_bytes4 data_length of
             Inl e \<Rightarrow> (h, Some e)
           | Inr song_data_length_bytes \<Rightarrow>
               (case streaming_tcp_send song_data_length_bytes 4 h of
                  (h1, Some e) \<Rightarrow> (h1, Some e)
                | (h1, None) \<Rightarrow>
                    (case readframes chunk song_bytes of
                       (current_packet, rest) \<Rightarrow> send_packets env 0 current_packet rest h1)))
      | Inr None \<Rightarrow>
          (case to_bytes4 0 of
             Inl e \<Rightarrow> (h, Some e)
           | Inr song_data_length_bytes \<Rightarrow> streaming_tcp_send song_data_length_bytes 4 h))"

text \<open>
  Used to state what a transfer puts on the wire: the packets that the loop of
  \<open>_send_song_data\<close> sends when it is never told to stop (it goes on while a read
  returns a full packet of 4096 bytes), the frame of a packet, and the value that the
  \<open>k\<close>-th reading of \<open>_stop_send\<close> in a transfer finds when no earlier reading has found
  the flag set.
\<close>

function full_packets :: "byte list \<Rightarrow> wave \<Rightarrow> byte list list" where
  "full_packets current_packet song_bytes =
     (if length current_packet = chunk * 4 then
        current_packet #
          (case readframes chunk song_bytes of
             (next_packet, rest) \<Rightarrow> full_packets next_packet rest)
      else [])"
  by pat_completeness auto
termination
  by (relation "measure (\<lambda>(current_packet, song_bytes).
         length (audio song_bytes) + (if length current_packet = chunk * 4 then 1 else 0))")
     (auto simp: readframes_def chunk_def Let_def)

definition frame :: "byte list \<Rightarrow> byte list" where
  "frame packet = type_data @ packet"

definition flag_read :: "(nat \<Rightarrow> bool) \<Rightarrow> client_handler \<Rightarrow> nat \<Rightarrow> bool" where
  "flag_read env h k = (env k \<or> (k = 0 \<and> stop_send h))"

text \<open>
  A wave file of three full packets (stereo, 16 bit: four bytes a frame, 3072 frames) and
  a handler whose catalog holds it as song 7 and nothing else.
\<close>

definition test_wave :: wave where
  "test_wave = \<lparr>frame_size = 4,
                 audio = replicate 4096 1 @ replicate 4096 2 @ replicate 4096 3\<rparr>"

definition test_handler :: client_handler where
  "test_handler =
     \<lparr>stop_send = False, streaming_socket = fresh_socket,
      communication_socket = fresh_socket,
      catalog = (\<lambda>sid. if sid = 7 then Some test_wave else None)\<rparr>"

text \<open>
  The reply to a request for song 7 of the test handler when nobody asks to stop, the
  reply for a song that is not in the catalog, and MediaPlayers that find these replies on
  their audio connection.
\<close>

definition test_reply :: "byte list" where
  "test_reply =
     [3, 0, 0, 0] @ frame (replicate 4096 1) @ frame (replicate 4096 2)
       @ frame (replicate 4096 3)"

definition test_client :: mediaplayer where
  "test_client = new_mediaplayer\<lparr>stream_client := fresh_socket\<lparr>incoming := test_reply\<rparr>\<rparr>"

definition not_found_client :: mediaplayer where
  "not_found_client =
     new_mediaplayer\<lparr>stream_client := fresh_socket\<lparr>incoming := [0, 0, 0, 0]\<rparr>\<rparr>"

text \<open>
  A wave file of 3072 frames of two bytes each (mono, 16 bit), a handler whose catalog
  holds it as song 7 and nothing else, and a control loop that never sets \<open>_stop_send\<close>.
\<close>

definition mono_wave :: wave where
  "mono_wave = \<lparr>frame_size = 2,
                 audio = replicate 2048 1 @ replicate 2048 2 @ replicate 2048 3\<rparr>"

definition mono_handler :: client_handler where
  "mono_handler =
     \<lparr>stop_send = False, streaming_socket = fresh_socket,
      communication_socket = fresh_socket,
      catalog = (\<lambda>sid. if sid = 7 then Some mono_wave else None)\<rparr>"

definition never_stop :: "nat \<Rightarrow> bool" where
  "never_stop k = False"

text \<open>
  \<open>slice_song_bytes\<close>, and the part of \<open>_search_for_song\<close> that sends one serialized
  song over the control connection.
\<close>

definition slice_song_bytes :: "byte list \<Rightarrow> error + (byte list list \<times> int)" where
  "slice_song_bytes serialized_song =
     (let serialized_song_length = length serialized_song in
      case true_div (int serialized_song_length) 1024 of
        Inl e \<Rightarrow> Inl e
      | Inr x \<Rightarrow>
          Inr (map (\<lambda>i. take 1024 (drop (i * 1024) serialized_song))
                 [0 ..< (serialized_song_length + 1023) div 1024],
               py_ceil x))"

fun send_chunks :: "byte list list \<Rightarrow> nat list \<Rightarrow> client_handler \<Rightarrow> client_handler \<times> error option" where
  "send_chunks data [] h = (h, None)"
| "send_chunks data (i # is) h =
     (if i < length data then
        (case communication_tcp_send (data ! i) 1024 h of
           (h', Some e) \<Rightarrow> (h', Some e)
         | (h', None) \<Rightarrow> send_chunks data is h')
      else (h, Some IndexError))"

definition send_serialized_song :: "byte list \<Rightarrow> client_handler \<Rightarrow> client_handler \<times> error option" where
  "send_serialized_song serialized_song h =
     (case slice_song_bytes serialized_song of
        Inl e \<Rightarrow> (h, Some e)
      | Inr (data, data_length) \<Rightarrow>
          (case to_bytes4 data_length of
             Inl e \<Rightarrow> (h, Some e)
           | Inr data_length_bytes \<Rightarrow>
               (case communication_tcp_send data_length_bytes 4 h of
                  (h1, Some e) \<Rightarrow> (h1, Some e)
                | (h1, None) \<Rightarrow>
                    (case send_chunks data [0 ..< nat (data_length - 1)] h1 of
                       (h2, Some e) \<Rightarrow> (h2, Some e)
                     | (h2, None) \<Rightarrow>
                         if data = [] then (h2, Some IndexError)
                         else
                           (let last_packet_length = int (length (last data)) in
                            case to_bytes4 last_packet_length of
                              Inl e \<Rightarrow> (h2, Some e)
                            | Inr last_packet_length_bytes \<Rightarrow>
                                (case communication_tcp_send last_packet_length_bytes 4 h2 of
                                   (h3, Some e) \<Rightarrow> (h3, Some e)
                                 | (h3, None) \<Rightarrow>
                                     communication_tcp_send (last data) last_packet_length h3))))))"

text \<open>
  The control connection of a client on which the chunked transfer of the one-byte
  payload \<open>b"A"\<close> has arrived.
\<close>

definition test_control_socket :: socket where
  "test_control_socket = fresh_socket\<lparr>incoming := [1, 0, 0, 0, 1, 0, 0, 0, 65]\<rparr>"

section \<open>Proof setup\<close>

declare tcp_send_loop.simps [simp del]
declare tcp_recv_loop.simps [simp del]
declare stream_inner.simps [simp del]
declare send_packets.simps [simp del]
declare full_packets.simps [simp del]

section \<open>Helper facts about Python lists\<close>

lemma py_index_less: "py_index n i = Some a \<Longrightarrow> a < n"
  by (auto simp: py_index_def split: if_splits)

lemma py_index_nonneg: "0 \<le> i \<Longrightarrow> i < int n \<Longrightarrow> py_index n i = Some (nat i)"
  by (simp add: py_index_def)

lemma swap_items_Inr:
  "swap_items q i j = Inr q' \<Longrightarrow>
     \<exists>a b. py_index (length q) i = Some a \<and> py_index (length q) j = Some b \<and>
           q' = q[a := q ! b, b := q ! a]"
  by (auto simp: swap_items_def split: option.splits)

lemma swap_items_mset: "swap_items q i j = Inr q' \<Longrightarrow> mset q' = mset q"
proof -
  assume "swap_items q i j = Inr q'"
  then obtain a b where ab: "py_index (length q) i = Some a" "py_index (length q) j = Some b"
    and q': "q' = q[a := q ! b, b := q ! a]"
    using swap_items_Inr by blast
  have "b < length q" "a < length q" using ab py_index_less by blast+
  then show ?thesis unfolding q' by (rule mset_swap)
qed

lemma swap_items_in_range:
  "0 \<le> i \<Longrightarrow> i < int (length q) \<Longrightarrow> 0 \<le> j \<Longrightarrow> j < int (length q) \<Longrightarrow>
   swap_items q i j = Inr (q[nat i := q ! nat j, nat j := q ! nat i])"
  by (simp add: swap_items_def py_index_nonneg)

section \<open>SongQueue: the two lists\<close>

text \<open>
  C1.  The claim: after any sequence of \<open>append_to_queue\<close>, \<open>insert_to_queue\<close> and
  \<open>pop_from_queue\<close> from the empty queue, the identifiers of the songs in the play-order
  list and the entries of the insertion-order list are the same multiset.
  \<open>insert_to_queue\<close> stores the Song object, not its identifier, in the insertion-order
  list: after \<open>insert_to_queue(0, song)\<close> on the empty queue the insertion-order list
  holds the object, the two multisets differ, and \<open>pop_from_queue(0)\<close> then raises
  ValueError and removes nothing.
\<close>

theorem C1_insert_to_queue_stores_object:
  "queue (insert_to_queue 0 test_song_1 empty_queue) = [test_song_1] \<and>
   ordered_queue (insert_to_queue 0 test_song_1 empty_queue) = [Obj test_song_1] \<and>
   mset (map entry_of (queue (insert_to_queue 0 test_song_1 empty_queue)))
     \<noteq> mset (ordered_queue (insert_to_queue 0 test_song_1 empty_queue)) \<and>
   pop_from_queue 0 (insert_to_queue 0 test_song_1 empty_queue)
     = (insert_to_queue 0 test_song_1 empty_queue, Some ValueError)"
  by (simp add: insert_to_queue_def empty_queue_def py_insert_def pop_from_queue_def
        py_index_def entry_of_def Let_def)

section \<open>SongQueue: shuffle and unshuffle\<close>

lemma shuffle_loop_mset: "mset (fst (shuffle_loop rand k r is q)) = mset q"
  by (induction rand k r "is" q rule: shuffle_loop.induct)
     (auto split: sum.splits dest: swap_items_mset)

lemma unshuffle_loop_mset: "mset (fst (unshuffle_loop k ord is q)) = mset q"
  by (induction k ord "is" q rule: unshuffle_loop.induct)
     (auto split: sum.splits option.splits dest: swap_items_mset)

text \<open>
  C10.  \<open>shuffle(k)\<close> and \<open>unshuffle(k)\<close> leave the insertion-order list as it is and
  permute the play-order list: the multiset of its songs is the same before and after.
  This holds for every queue and every \<open>k\<close>, also when the operation raises.
\<close>

theorem C10_shuffle_unshuffle_permute:
  "ordered_queue (fst (shuffle rand k sq)) = ordered_queue sq \<and>
   mset (queue (fst (shuffle rand k sq))) = mset (queue sq) \<and>
   ordered_queue (fst (unshuffle k sq)) = ordered_queue sq \<and>
   mset (queue (fst (unshuffle k sq))) = mset (queue sq)"
  using shuffle_loop_mset[of rand k "[0 .. k - 1] @ [k + 1 .. int (length (queue sq)) - 1]"
          "[0 ..< length (queue sq)]" "queue sq"]
    unshuffle_loop_mset[of k "ordered_queue sq" "[0 ..< length (queue sq)]" "queue sq"]
  by (auto simp: shuffle_def unshuffle_def Let_def split: prod.splits)

lemma shuffle_loop_keeps:
  assumes "0 \<le> k" "k < int (length q)"
    and "\<forall>x\<in>set r. 0 \<le> x \<and> x < int (length q) \<and> x \<noteq> k"
    and "\<forall>i\<in>set is. i < length q"
    and "r \<noteq> [] \<or> (\<forall>i\<in>set is. int i = k)"
  shows "snd (shuffle_loop rand k r is q) = None \<and>
         fst (shuffle_loop rand k r is q) ! nat k = q ! nat k"
  using assms
proof (induction "is" arbitrary: q)
  case Nil
  then show ?case by simp
next
  case (Cons i "is")
  show ?case
  proof (cases "int i = k")
    case True
    then show ?thesis using Cons by simp
  next
    case False
    then have rne: "r \<noteq> []" using Cons.prems(5) by auto
    define x where "x = r ! (rand i mod length r)"
    have "x \<in> set r" unfolding x_def using rne by simp
    then have x: "0 \<le> x" "x < int (length q)" "x \<noteq> k" using Cons.prems(3) by auto
    have i: "i < length q" using Cons.prems(4) by simp
    define q' where "q' = q[i := q ! nat x, nat x := q ! i]"
    have sw: "swap_items q (int i) x = Inr q'"
      using swap_items_in_range[of "int i" q x] i x by (simp add: q'_def)
    have len: "length q' = length q" by (simp add: q'_def)
    have keep: "q' ! nat k = q ! nat k"
      using False x Cons.prems(1) by (auto simp: q'_def nth_list_update)
    have "snd (shuffle_loop rand k r is q') = None \<and>
          fst (shuffle_loop rand k r is q') ! nat k = q' ! nat k"
      using Cons.prems rne by (intro Cons.IH) (auto simp: len)
    then show ?thesis using False rne sw keep by (simp add: x_def)
  qed
qed

text \<open>
  C4.  On a non-empty queue and for an index \<open>k\<close> in range, \<open>shuffle(k)\<close> raises nothing
  and leaves the element at position \<open>k\<close> as it is, whatever \<open>random.choice\<close> draws.
\<close>

theorem C4_shuffle_keeps_current:
  assumes "queue sq \<noteq> []" "0 \<le> k" "k < int (length (queue sq))"
  shows "queue (fst (shuffle rand k sq)) ! nat k = queue sq ! nat k \<and>
         snd (shuffle rand k sq) = None"
proof -
  let ?n = "length (queue sq)"
  let ?r = "[0 .. k - 1] @ [k + 1 .. int ?n - 1]"
  have "?r \<noteq> [] \<or> (\<forall>i\<in>set [0 ..< ?n]. int i = k)"
    using assms by auto
  then have "snd (shuffle_loop rand k ?r [0 ..< ?n] (queue sq)) = None \<and>
        fst (shuffle_loop rand k ?r [0 ..< ?n] (queue sq)) ! nat k = queue sq ! nat k"
    using assms by (intro shuffle_loop_keeps) auto
  then show ?thesis
    using assms by (simp add: shuffle_def Let_def case_prod_beta)
qed

theorem C4_shuffle_keeps_current_witness:
  "queue queue_123 \<noteq> [] \<and> (0::int) \<le> 1 \<and> 1 < int (length (queue queue_123)) \<and>
   queue (fst (shuffle (\<lambda>i. i + 1) 1 queue_123)) ! nat 1 = test_song_2 \<and>
   snd (shuffle (\<lambda>i. i + 1) 1 queue_123) = None"
  using C4_shuffle_keeps_current[of queue_123 1 "\<lambda>i. i + 1"]
  by (simp add: queue_123_def)

lemma id_matches_entry_of: "id_matches s e \<longleftrightarrow> entry_of s = e"
  by (cases e) (auto simp: entry_of_def)

lemma find_song_Some:
  "find_song q e = Some j \<Longrightarrow> j < length q \<and> entry_of (q ! j) = e"
proof (induction q arbitrary: j)
  case Nil
  then show ?case by simp
next
  case (Cons s ss)
  then show ?case
    by (cases "id_matches s e") (auto simp: id_matches_entry_of)
qed

lemma find_song_None: "find_song q e = None \<Longrightarrow> e \<notin> entry_of ` set q"
  by (induction q) (auto simp: id_matches_entry_of split: if_splits)

lemma find_song_present:
  assumes "e \<in> entry_of ` set q"
  obtains j where "find_song q e = Some j" "j < length q" "entry_of (q ! j) = e"
proof (cases "find_song q e")
  case None
  then show ?thesis using assms find_song_None by blast
next
  case (Some j)
  then show ?thesis using that find_song_Some by blast
qed

text \<open>
  The loop of \<open>unshuffle\<close> from iteration \<open>t\<close> on, when the positions before \<open>t\<close> are
  already restored except \<open>k\<close> and the slot \<open>p\<close> of the current song.
\<close>

lemma unshuffle_loop_restores:
  assumes ord: "length ord = n" "distinct ord"
    and k: "0 \<le> k" "nat k < n"
    and len: "length q = n"
    and perm: "mset (map entry_of q) = mset ord"
    and cur: "entry_of (q ! nat k) = ord ! p"
    and p: "p < n"
    and prev: "\<forall>i<t. i \<noteq> nat k \<and> i \<noteq> p \<longrightarrow> entry_of (q ! i) = ord ! i"
    and t: "t \<le> n"
  shows "\<exists>q'. unshuffle_loop k ord [t ..< n] q = (q', None) \<and> length q' = n \<and>
           q' ! nat k = q ! nat k \<and>
           (\<forall>i<n. i \<noteq> nat k \<and> i \<noteq> p \<longrightarrow> entry_of (q' ! i) = ord ! i)"
  using len perm cur prev t
proof (induction "n - t" arbitrary: t q)
  case 0
  then have "t = n" by simp
  then show ?case using 0 by simp
next
  case (Suc d)
  then have tn: "t < n" by simp
  have dq: "distinct (map entry_of q)"
    using Suc.prems(2) ord(2) by (metis mset_eq_imp_distinct_iff)
  have "ord ! t \<in> set ord" using tn ord(1) by simp
  then have "ord ! t \<in> entry_of ` set q"
    using Suc.prems(2) by (metis mset_eq_setD set_map)
  then obtain j where j: "find_song q (ord ! t) = Some j" "j < length q" "entry_of (q ! j) = ord ! t"
    by (rule find_song_present)
  have uniq: "\<And>a b. a < n \<Longrightarrow> b < n \<Longrightarrow> entry_of (q ! a) = entry_of (q ! b) \<Longrightarrow> a = b"
    using dq Suc.prems(1) by (metis length_map nth_eq_iff_index_eq nth_map)
  have ouniq: "\<And>a b. a < n \<Longrightarrow> b < n \<Longrightarrow> ord ! a = ord ! b \<Longrightarrow> a = b"
    using ord by (metis nth_eq_iff_index_eq)
  have step: "[t ..< n] = t # [Suc t ..< n]" using tn by (simp add: upt_conv_Cons)
  show ?case
  proof (cases "int t \<noteq> k \<and> int j \<noteq> k")
    case False
    have nxt: "\<forall>i<Suc t. i \<noteq> nat k \<and> i \<noteq> p \<longrightarrow> entry_of (q ! i) = ord ! i"
    proof (intro allI impI)
      fix i assume i: "i < Suc t" "i \<noteq> nat k \<and> i \<noteq> p"
      have "i \<noteq> t"
      proof
        assume "i = t"
        with i False k have "int j = k" by auto
        then have "nat k = j" by simp
        then have "ord ! p = ord ! t" using Suc.prems(3) j(3) by simp
        then have "p = t" using ouniq p tn by blast
        with \<open>i = t\<close> i show False by simp
      qed
      then show "entry_of (q ! i) = ord ! i" using i Suc.prems(4) by simp
    qed
    have "\<exists>q'. unshuffle_loop k ord [Suc t ..< n] q = (q', None) \<and> length q' = n \<and>
           q' ! nat k = q ! nat k \<and>
           (\<forall>i<n. i \<noteq> nat k \<and> i \<noteq> p \<longrightarrow> entry_of (q' ! i) = ord ! i)"
      using Suc.hyps(2) Suc.prems nxt tn by (intro Suc.hyps(1)) auto
    then show ?thesis using False j tn ord(1) by (auto simp: step)
  next
    case True
    define q' where "q' = q[t := q ! j, j := q ! t]"
    have sw: "swap_items q (int t) (int j) = Inr q'"
      using swap_items_in_range[of "int t" q "int j"] tn j(2) Suc.prems(1) by (simp add: q'_def)
    have tk: "t \<noteq> nat k" "j \<noteq> nat k" using True k by auto
    have len': "length q' = n" using Suc.prems(1) by (simp add: q'_def)
    have perm': "mset (map entry_of q') = mset ord"
      using swap_items_mset[OF sw] Suc.prems(2) by (metis mset_map)
    have keep: "q' ! nat k = q ! nat k" using tk by (simp add: q'_def)
    have at_t: "entry_of (q' ! t) = ord ! t"
      using j tn Suc.prems(1) by (cases "t = j") (simp_all add: q'_def)
    have nxt: "\<forall>i<Suc t. i \<noteq> nat k \<and> i \<noteq> p \<longrightarrow> entry_of (q' ! i) = ord ! i"
    proof (intro allI impI)
      fix i assume i: "i < Suc t" "i \<noteq> nat k \<and> i \<noteq> p"
      show "entry_of (q' ! i) = ord ! i"
      proof (cases "i = t")
        case True
        then show ?thesis using at_t by simp
      next
        case False
        then have it: "i < t" using i by simp
        then have old: "entry_of (q ! i) = ord ! i" using i Suc.prems(4) by simp
        have "i \<noteq> j"
        proof
          assume "i = j"
          then have "ord ! i = ord ! t" using old j(3) by simp
          then have "i = t" using ouniq it tn by simp
          then show False using it by simp
        qed
        then show ?thesis using False old by (simp add: q'_def)
      qed
    qed
    have "\<exists>q''. unshuffle_loop k ord [Suc t ..< n] q' = (q'', None) \<and> length q'' = n \<and>
           q'' ! nat k = q' ! nat k \<and>
           (\<forall>i<n. i \<noteq> nat k \<and> i \<noteq> p \<longrightarrow> entry_of (q'' ! i) = ord ! i)"
      using Suc.hyps(2) Suc.prems(3) nxt tn len' perm' keep by (intro Suc.hyps(1)) auto
    then show ?thesis using True j tn ord(1) sw keep by (simp add: step)
  qed
qed

text \<open>
  C3.  The claim names as exceptions position \<open>k\<close> and the position that held
  \<open>insertion-order[k]\<close> before the restoration.  On the queue \<open>[2, 3, 1]\<close> with insertion
  order \<open>[1, 2, 3]\<close> and \<open>k = 0\<close> that position is 2, and \<open>unshuffle(0)\<close> gives
  \<open>[2, 1, 3]\<close>: position 1 is neither of the two and does not hold song 2.
\<close>

theorem C3_unshuffle_counterexample:
  "distinct (map song_id (queue queue_231)) \<and>
   mset (map entry_of (queue queue_231)) = mset (ordered_queue queue_231) \<and>
   (0::int) < int (length (queue queue_231)) \<and>
   find_song (queue queue_231) (ordered_queue queue_231 ! 0) = Some 2 \<and>
   queue (fst (unshuffle 0 queue_231)) = [test_song_2, test_song_1, test_song_3] \<and>
   (1::nat) \<noteq> 0 \<and> (1::nat) \<noteq> 2 \<and>
   entry_of (queue (fst (unshuffle 0 queue_231)) ! 1) \<noteq> ordered_queue queue_231 ! 1"
  by (simp add: queue_231_def test_song_1_def test_song_2_def test_song_3_def entry_of_def
        unshuffle_def swap_items_def py_index_def)

text \<open>
  C3, amended.  For a queue whose songs have pairwise distinct identifiers and whose
  play-order identifiers are a permutation of the insertion-order list, and for \<open>k\<close> in
  range, \<open>unshuffle(k)\<close> raises nothing and afterwards every position \<open>i\<close> holds the song
  with identifier \<open>insertion-order[i]\<close>, except possibly position \<open>k\<close> and the position
  \<open>p\<close> of the current song in the insertion order (\<open>insertion-order[p]\<close> is the
  identifier of the song at \<open>k\<close>).
\<close>

theorem C3_unshuffle_restores:
  assumes "distinct (map song_id (queue sq))"
    and "mset (map entry_of (queue sq)) = mset (ordered_queue sq)"
    and "0 \<le> k" "k < int (length (queue sq))"
    and "p < length (queue sq)" "ordered_queue sq ! p = entry_of (queue sq ! nat k)"
  shows "snd (unshuffle k sq) = None \<and>
         (\<forall>i<length (queue sq). i \<noteq> nat k \<and> i \<noteq> p \<longrightarrow>
            entry_of (queue (fst (unshuffle k sq)) ! i) = ordered_queue sq ! i)"
proof -
  let ?n = "length (queue sq)"
  have lo: "length (ordered_queue sq) = ?n"
    using assms(2) by (metis length_map mset_eq_length)
  have "distinct (map entry_of (queue sq))"
    using assms(1) by (simp add: distinct_map entry_of_def inj_on_def)
  then have dord: "distinct (ordered_queue sq)"
    using assms(2) by (metis mset_eq_imp_distinct_iff)
  have "\<exists>q'. unshuffle_loop k (ordered_queue sq) [0 ..< ?n] (queue sq) = (q', None) \<and> length q' = ?n \<and>
           q' ! nat k = queue sq ! nat k \<and>
           (\<forall>i<?n. i \<noteq> nat k \<and> i \<noteq> p \<longrightarrow> entry_of (q' ! i) = ordered_queue sq ! i)"
    using lo dord assms by (intro unshuffle_loop_restores) auto
  moreover have "queue sq \<noteq> []" using assms(5) by auto
  ultimately show ?thesis by (auto simp: unshuffle_def)
qed

theorem C3_unshuffle_restores_witness:
  "distinct (map song_id (queue queue_231)) \<and>
   mset (map entry_of (queue queue_231)) = mset (ordered_queue queue_231) \<and>
   (0::int) \<le> 0 \<and> 0 < int (length (queue queue_231)) \<and>
   (1::nat) < length (queue queue_231) \<and>
   ordered_queue queue_231 ! 1 = entry_of (queue queue_231 ! nat 0) \<and>
   snd (unshuffle 0 queue_231) = None \<and>
   (2::nat) < length (queue queue_231) \<and> (2::nat) \<noteq> nat 0 \<and> (2::nat) \<noteq> 1 \<and>
   entry_of (queue (fst (unshuffle 0 queue_231)) ! 2) = ordered_queue queue_231 ! 2"
proof -
  have h: "distinct (map song_id (queue queue_231))"
    "mset (map entry_of (queue queue_231)) = mset (ordered_queue queue_231)"
    "(0::int) \<le> 0" "0 < int (length (queue queue_231))"
    "(1::nat) < length (queue queue_231)"
    "ordered_queue queue_231 ! 1 = entry_of (queue queue_231 ! nat 0)"
    by (simp_all add: queue_231_def test_song_1_def test_song_2_def test_song_3_def entry_of_def)
  have "(2::nat) < length (queue queue_231)" by (simp add: queue_231_def)
  then show ?thesis
    using h C3_unshuffle_restores[OF h] by simp
qed

section \<open>MediaPlayer: moving songs in the queue\<close>

lemma swap_items_below:
  assumes "swap_items q i j = Inr q'" "lo \<le> i" "lo \<le> j" "int n < lo"
  shows "q' ! n = q ! n"
proof -
  obtain a b where ab: "py_index (length q) i = Some a" "py_index (length q) j = Some b"
    and q': "q' = q[a := q ! b, b := q ! a]"
    using assms(1) swap_items_Inr by blast
  have "a \<noteq> n" using ab(1) assms(2,4) by (auto simp: py_index_def split: if_splits)
  moreover have "b \<noteq> n" using ab(2) assms(3,4) by (auto simp: py_index_def split: if_splits)
  ultimately show ?thesis by (simp add: q')
qed

lemma move_up_below:
  "int n < queue_start mp \<Longrightarrow>
   queue (mp_queue (fst (move_up si mp))) ! n = queue (mp_queue mp) ! n"
  by (auto simp: move_up_def split: sum.splits
        dest!: swap_items_below[where lo = "queue_start mp" and n = n])

lemma move_down_below:
  "queue_start mp \<le> si \<Longrightarrow> int n < queue_start mp \<Longrightarrow>
   queue (mp_queue (fst (move_down si mp))) ! n = queue (mp_queue mp) ! n"
  by (auto simp: move_down_def split: sum.splits
        dest!: swap_items_below[where lo = "queue_start mp" and n = n])

lemma move_down_swaps:
  "0 \<le> si \<Longrightarrow> si < int (length (queue (mp_queue mp))) - 1 \<Longrightarrow>
   move_down si mp =
     (mp\<lparr>mp_queue := (mp_queue mp)\<lparr>queue := (queue (mp_queue mp))
        [nat si := queue (mp_queue mp) ! nat (si + 1),
         nat (si + 1) := queue (mp_queue mp) ! nat si]\<rparr>\<rparr>, None)"
  by (simp add: move_down_def swap_items_in_range)

text \<open>
  C5.  The claim: neither \<open>move_up\<close> nor \<open>move_down\<close> reorders a song at or before the
  currently playing index into the future queue.  \<open>move_down\<close> tests only
  \<open>song_index < len - 1\<close>: while the first of three songs is streaming, \<open>move_down(0)\<close>
  swaps it with the second, so the song at the currently playing index 0 ends at
  position 1.
\<close>

theorem C5_move_down_counterexample:
  "\<not> currently_streaming streaming_123 \<and> current_song_index streaming_123 = 0 \<and>
   queue (mp_queue streaming_123) ! 0 = test_song_1 \<and>
   queue (mp_queue (fst (move_down 0 streaming_123)))
     = [test_song_2, test_song_1, test_song_3]"
  by (simp add: streaming_123_def new_mediaplayer_def new_player_def queue_123_def
        currently_streaming_def move_down_def swap_items_def py_index_def)

text \<open>
  C5, amended.  Let \<open>start\<close> be the currently playing index plus one while a stream is
  running and the currently playing index otherwise.  \<open>move_up\<close> changes nothing unless
  \<open>song_index > start\<close>, and never changes a position before \<open>start\<close>.  \<open>move_down\<close>
  swaps the entries at \<open>song_index\<close> and \<open>song_index + 1\<close> whenever
  \<open>0 \<le> song_index < len - 1\<close>, without looking at the currently playing index; it
  leaves the positions before \<open>start\<close> as they are when \<open>song_index \<ge> start\<close>.
\<close>

theorem C5_move_up_move_down:
  "(si \<le> queue_start mp \<longrightarrow> move_up si mp = (mp, None)) \<and>
   (\<forall>n. int n < queue_start mp \<longrightarrow>
      queue (mp_queue (fst (move_up si mp))) ! n = queue (mp_queue mp) ! n) \<and>
   (0 \<le> si \<and> si < int (length (queue (mp_queue mp))) - 1 \<longrightarrow>
      move_down si mp =
        (mp\<lparr>mp_queue := (mp_queue mp)\<lparr>queue := (queue (mp_queue mp))
           [nat si := queue (mp_queue mp) ! nat (si + 1),
            nat (si + 1) := queue (mp_queue mp) ! nat si]\<rparr>\<rparr>, None)) \<and>
   (queue_start mp \<le> si \<longrightarrow>
      (\<forall>n. int n < queue_start mp \<longrightarrow>
         queue (mp_queue (fst (move_down si mp))) ! n = queue (mp_queue mp) ! n))"
  using move_up_below[of _ mp si] move_down_below[of mp si] move_down_swaps[of si mp]
  by (auto simp: move_up_def)

theorem C5_move_up_move_down_witness:
  "queue_start streaming_123 = 1 \<and>
   move_up 1 streaming_123 = (streaming_123, None) \<and>
   queue (mp_queue (fst (move_up 2 streaming_123))) ! 0 = test_song_1 \<and>
   queue (mp_queue (fst (move_down 1 streaming_123)))
     = [test_song_1, test_song_3, test_song_2] \<and>
   queue (mp_queue (fst (move_down 1 streaming_123))) ! 0 = test_song_1"
proof -
  have qs: "queue_start streaming_123 = 1"
    by (simp add: queue_start_def currently_streaming_def streaming_123_def
          new_mediaplayer_def new_player_def)
  have q: "queue (mp_queue streaming_123) = [test_song_1, test_song_2, test_song_3]"
    by (simp add: streaming_123_def queue_123_def)
  note up1 = C5_move_up_move_down[of 1 streaming_123]
  note up2 = C5_move_up_move_down[of 2 streaming_123]
  have a: "move_up 1 streaming_123 = (streaming_123, None)"
    using up1 qs by simp
  have b: "queue (mp_queue (fst (move_up 2 streaming_123))) ! 0 = test_song_1"
    using up2[THEN conjunct2, THEN conjunct1, THEN spec, of 0] qs q by simp
  have c: "queue (mp_queue (fst (move_down 1 streaming_123)))
             = [test_song_1, test_song_3, test_song_2]"
    using up1[THEN conjunct2, THEN conjunct2, THEN conjunct1] q by simp
  have d: "queue (mp_queue (fst (move_down 1 streaming_123))) ! 0 = test_song_1"
    using up1[THEN conjunct2, THEN conjunct2, THEN conjunct2, THEN mp, THEN spec, of 0] qs q
    by simp
  show ?thesis using qs a b c d by simp
qed

section \<open>Floats: rounding to binary64\<close>

lemma round_half_even_of_int: "round_half_even (of_int m) = m"
  by (simp add: round_half_even_def)

lemma round_half_even_bounds:
  "\<lfloor>x\<rfloor> \<le> round_half_even x \<and> round_half_even x \<le> \<lfloor>x\<rfloor> + 1"
  by (simp add: round_half_even_def Let_def)

lemma round_half_even_mono:
  assumes "x \<le> y"
  shows "round_half_even x \<le> round_half_even y"
proof (cases "\<lfloor>x\<rfloor> = \<lfloor>y\<rfloor>")
  case True
  then have "x - of_int \<lfloor>x\<rfloor> \<le> y - of_int \<lfloor>y\<rfloor>" using assms by simp
  then show ?thesis using True by (auto simp: round_half_even_def Let_def)
next
  case False
  then have "\<lfloor>x\<rfloor> < \<lfloor>y\<rfloor>" using assms floor_mono[of x y] by linarith
  then show ?thesis
    using round_half_even_bounds[of x] round_half_even_bounds[of y] by linarith
qed

lemma exponent2_bounds:
  assumes "0 < a"
  shows "2 powi (exponent2 a) \<le> a \<and> a < 2 powi (exponent2 a + 1)"
proof -
  obtain p q where pq: "quotient_of a = (p, q)" by (cases "quotient_of a")
  have q: "0 < q" using pq quotient_of_denom_pos by blast
  have a: "a = of_int p / of_int q" using pq quotient_of_div by blast
  have p: "0 < p" using assms q a by (simp add: zero_less_divide_iff)
  define bp where "bp = bitlen p"
  define bq where "bq = bitlen q"
  have bp1: "1 \<le> bp" using p by (simp add: bp_def bitlen_ge_iff_power)
  have bq1: "1 \<le> bq" using q by (simp add: bq_def bitlen_ge_iff_power)
  have pb: "(2::int) ^ nat (bp - 1) \<le> p" "p < 2 ^ nat bp"
    using bitlen_bounds[OF p] by (simp_all add: bp_def)
  have qb: "(2::int) ^ nat (bq - 1) \<le> q" "q < 2 ^ nat bq"
    using bitlen_bounds[OF q] by (simp_all add: bq_def)
  have pr: "(2::rat) powi (bp - 1) \<le> of_int p" "of_int p < (2::rat) powi bp"
  proof -
    have "(of_int ((2::int) ^ nat (bp - 1)) :: rat) \<le> of_int p" using pb(1) by (simp only: of_int_le_iff)
    then show "(2::rat) powi (bp - 1) \<le> of_int p" using bp1 by (simp add: power_int_def)
    have "(of_int p :: rat) < of_int ((2::int) ^ nat bp)" using pb(2) by (simp only: of_int_less_iff)
    then show "of_int p < (2::rat) powi bp" using bp1 by (simp add: power_int_def)
  qed
  have qr: "(2::rat) powi (bq - 1) \<le> of_int q" "of_int q < (2::rat) powi bq"
  proof -
    have "(of_int ((2::int) ^ nat (bq - 1)) :: rat) \<le> of_int q" using qb(1) by (simp only: of_int_le_iff)
    then show "(2::rat) powi (bq - 1) \<le> of_int q" using bq1 by (simp add: power_int_def)
    have "(of_int q :: rat) < of_int ((2::int) ^ nat bq)" using qb(2) by (simp only: of_int_less_iff)
    then show "of_int q < (2::rat) powi bq" using bq1 by (simp add: power_int_def)
  qed
  have qpos: "(0::rat) < of_int q" using q by simp
  have upper: "a < 2 powi (bp - bq + 1)"
  proof -
    have "a < 2 powi bp / of_int q" unfolding a using pr(2) qpos by (simp add: divide_strict_right_mono)
    also have "\<dots> \<le> 2 powi bp / 2 powi (bq - 1)"
      using qr(1) by (intro divide_left_mono) (auto intro!: mult_pos_pos qpos)
    also have "\<dots> = 2 powi (bp - bq + 1)"
      by (simp add: power_int_diff[symmetric] algebra_simps)
    finally show ?thesis .
  qed
  have lower: "2 powi (bp - bq - 1) < a"
  proof -
    have "(2::rat) powi (bp - bq - 1) = 2 powi (bp - 1) / 2 powi bq"
      by (simp add: power_int_diff[symmetric] algebra_simps)
    also have "\<dots> < 2 powi (bp - 1) / of_int q"
      using qr(2) qpos by (intro divide_strict_left_mono) (auto intro!: mult_pos_pos)
    also have "\<dots> \<le> a" unfolding a using pr(1) qpos by (simp add: divide_right_mono)
    finally show ?thesis .
  qed
  show ?thesis
  proof (cases "2 powi (bp - bq) \<le> a")
    case True
    then have "exponent2 a = bp - bq" by (simp add: exponent2_def pq bp_def bq_def)
    then show ?thesis using True upper by simp
  next
    case False
    then have "exponent2 a = bp - bq - 1" by (simp add: exponent2_def pq bp_def bq_def)
    then show ?thesis using False lower by simp
  qed
qed

lemma pow2_pos: "(0::rat) < 2 powi e"
  by simp

lemma pow2_mono: "a \<le> b \<Longrightarrow> (2::rat) powi a \<le> 2 powi b"
  by (rule power_int_increasing) simp_all

lemma pow2_less_imp: "(2::rat) powi a < 2 powi b \<Longrightarrow> a < b"
  using pow2_mono[of b a] by (cases "a < b") auto

lemma exponent2_mono:
  assumes "0 < x" "x \<le> y"
  shows "exponent2 x \<le> exponent2 y"
proof -
  have "2 powi (exponent2 x) \<le> x" using exponent2_bounds[OF assms(1)] by simp
  also have "x \<le> y" by fact
  also have "y < 2 powi (exponent2 y + 1)" using exponent2_bounds[of y] assms by simp
  finally have "exponent2 x < exponent2 y + 1" by (rule pow2_less_imp)
  then show ?thesis by simp
qed

lemma fl64_pos_eq: "fl64_pos a = (if fl64_round a < 2 ^ 1024 then Some (fl64_round a) else None)"
  by (simp add: fl64_pos_def Let_def)

lemma fl64_round_exact:
  assumes "0 < m" "m < 2 ^ 53" "- 1074 \<le> j"
  shows "fl64_round (of_int m * 2 powi j) = of_int m * 2 powi j"
proof -
  define a :: rat where "a = of_int m * 2 powi j"
  have apos: "0 < a" using assms(1) by (simp add: a_def)
  define e where "e = max (exponent2 a) (- 1022)"
  have "2 powi (exponent2 a) \<le> a" using exponent2_bounds[OF apos] by simp
  also have "a < 2 ^ 53 * 2 powi j"
  proof -
    have "(of_int m :: rat) < of_int (2 ^ 53)" using assms(2) by (simp only: of_int_less_iff)
    then show ?thesis unfolding a_def by (simp add: mult_strict_right_mono)
  qed
  also have "\<dots> = 2 powi (53 + j)" by (simp add: power_int_add)
  finally have "exponent2 a < 53 + j" by (rule pow2_less_imp)
  then have ej: "e \<le> 52 + j" using assms(3) by (simp add: e_def)
  define d where "d = nat (j - e + 52)"
  have dd: "int d = j - (e - 52)" using ej by (simp add: d_def)
  have "a / 2 powi (e - 52) = of_int m * 2 powi (j - (e - 52))"
    by (simp add: a_def power_int_diff)
  also have "\<dots> = of_int m * 2 ^ d" using dd by (metis power_int_of_nat)
  also have "\<dots> = of_int (m * 2 ^ d)" by simp
  finally have "round_half_even (a / 2 powi (e - 52)) = m * 2 ^ d"
    by (simp only: round_half_even_of_int)
  then have "fl64_round a = of_int (m * 2 ^ d) * 2 powi (e - 52)"
    by (simp add: fl64_round_def e_def Let_def)
  also have "\<dots> = of_int m * (2 powi (int d) * 2 powi (e - 52))" by simp
  also have "2 powi (int d) * (2::rat) powi (e - 52) = 2 powi j"
    unfolding dd by (simp add: power_int_diff)
  finally show ?thesis by (simp add: a_def)
qed

lemma fl64_round_nonneg: "0 < a \<Longrightarrow> 0 \<le> fl64_round a"
proof -
  assume a: "0 < a"
  define u :: rat where "u = 2 powi (max (exponent2 a) (- 1022) - 52)"
  have "0 < u" by (simp add: u_def)
  then have "0 \<le> a / u" using a by simp
  then have "0 \<le> round_half_even (a / u)"
    using round_half_even_mono[of 0 "a / u"] round_half_even_of_int[of 0] by simp
  then show ?thesis using \<open>0 < u\<close> by (simp add: fl64_round_def Let_def u_def)
qed

lemma fl64_round_mono:
  assumes "0 < x" "x \<le> y"
  shows "fl64_round x \<le> fl64_round y"
proof -
  have ypos: "0 < y" using assms by simp
  define ex where "ex = max (exponent2 x) (- 1022)"
  define ey where "ey = max (exponent2 y) (- 1022)"
  define ux :: rat where "ux = 2 powi (ex - 52)"
  define uy :: rat where "uy = 2 powi (ey - 52)"
  have rx: "fl64_round x = of_int (round_half_even (x / ux)) * ux"
    by (simp add: fl64_round_def ex_def ux_def Let_def)
  have ry: "fl64_round y = of_int (round_half_even (y / uy)) * uy"
    by (simp add: fl64_round_def ey_def uy_def Let_def)
  have ux: "0 < ux" and uy: "0 < uy" by (simp_all add: ux_def uy_def)
  have le: "ex \<le> ey" using exponent2_mono[OF assms] by (simp add: ex_def ey_def)
  show ?thesis
  proof (cases "ex = ey")
    case True
    then have "ux = uy" by (simp add: ux_def uy_def)
    moreover have "x / uy \<le> y / uy" using assms(2) uy by (simp add: divide_right_mono)
    ultimately show ?thesis
      using round_half_even_mono[of "x / uy" "y / uy"] uy by (simp add: rx ry)
  next
    case False
    then have lt: "ex < ey" using le by simp
    then have eyy: "ey = exponent2 y" by (auto simp: ey_def ex_def)
    have "2 powi ey \<le> y" using exponent2_bounds[OF ypos] eyy by simp
    then have "2 powi ey / uy \<le> y / uy" using uy by (simp add: divide_right_mono)
    moreover have "2 powi ey / uy = of_int (2 ^ 52)"
      by (simp add: uy_def power_int_diff[symmetric])
    ultimately have "round_half_even (of_int (2 ^ 52)) \<le> round_half_even (y / uy)"
      using round_half_even_mono by metis
    then have "(2::int) ^ 52 \<le> round_half_even (y / uy)"
      by (simp only: round_half_even_of_int)
    then have "(of_int ((2::int) ^ 52) :: rat) \<le> of_int (round_half_even (y / uy))"
      by (simp only: of_int_le_iff)
    then have "of_int (2 ^ 52) * uy \<le> fl64_round y" using uy by (simp add: ry)
    moreover have "of_int (2 ^ 52) * uy = 2 powi ey"
    proof -
      have "ey = 52 + (ey - 52)" by simp
      then have "(2::rat) powi ey = 2 powi (52 + (ey - 52))" by (rule arg_cong)
      also have "\<dots> = 2 powi 52 * 2 powi (ey - 52)" by (rule power_int_add) simp
      finally show ?thesis by (simp add: uy_def)
    qed
    ultimately have low: "2 powi ey \<le> fl64_round y" by simp
    have "x < 2 powi (exponent2 x + 1)" using exponent2_bounds[OF assms(1)] by simp
    also have "\<dots> \<le> 2 powi (ex + 1)" by (rule pow2_mono) (simp add: ex_def)
    finally have "x / ux < 2 powi (ex + 1) / ux" using ux by (simp add: divide_strict_right_mono)
    moreover have "2 powi (ex + 1) / ux = of_int (2 ^ 53)"
      by (simp add: ux_def power_int_diff[symmetric])
    ultimately have "round_half_even (x / ux) \<le> round_half_even (of_int (2 ^ 53))"
      using round_half_even_mono[of "x / ux" "of_int (2 ^ 53)"] by simp
    then have "round_half_even (x / ux) \<le> 2 ^ 53"
      by (simp only: round_half_even_of_int)
    then have "(of_int (round_half_even (x / ux)) :: rat) \<le> of_int (2 ^ 53)"
      by (simp only: of_int_le_iff)
    then have "fl64_round x \<le> of_int (2 ^ 53) * ux" using ux by (simp add: rx)
    moreover have "of_int (2 ^ 53) * ux = 2 powi (ex + 1)"
    proof -
      have "ex + 1 = 53 + (ex - 52)" by simp
      then have "(2::rat) powi (ex + 1) = 2 powi (53 + (ex - 52))" by (rule arg_cong)
      also have "\<dots> = 2 powi 53 * 2 powi (ex - 52)" by (rule power_int_add) simp
      finally show ?thesis by (simp add: ux_def)
    qed
    ultimately have "fl64_round x \<le> 2 powi (ex + 1)" by simp
    also have "\<dots> \<le> 2 powi ey" using lt by (intro pow2_mono) simp
    finally show ?thesis using low by simp
  qed
qed

lemma fl64_mono:
  assumes "0 \<le> x" "x \<le> y" "fl64 y = Some ry"
  shows "\<exists>rx. fl64 x = Some rx \<and> 0 \<le> rx \<and> rx \<le> ry"
proof (cases "x = 0")
  case True
  show ?thesis
  proof (cases "y = 0")
    case True
    then show ?thesis using \<open>x = 0\<close> assms by (simp add: fl64_def)
  next
    case False
    then have "0 < y" using assms True by simp
    then have "0 \<le> ry" using assms(3) fl64_round_nonneg[of y]
      by (auto simp: fl64_def fl64_pos_eq split: if_splits)
    then show ?thesis using True by (simp add: fl64_def)
  qed
next
  case False
  then have x: "0 < x" using assms by simp
  then have y: "0 < y" using assms by simp
  have ry: "fl64_round y = ry" "ry < 2 ^ 1024"
    using assms(3) y by (auto simp: fl64_def fl64_pos_eq split: if_splits)
  have "fl64_round x \<le> ry" using fl64_round_mono[OF x assms(2)] ry by simp
  then show ?thesis using x ry fl64_round_nonneg[OF x] by (simp add: fl64_def fl64_pos_eq)
qed

lemma fl64_exact:
  assumes "0 < m" "m < 2 ^ 53" "- 1074 \<le> j" "of_int m * 2 powi j < (2::rat) ^ 1024"
  shows "fl64 (of_int m * 2 powi j) = Some (of_int m * 2 powi j)"
  using assms fl64_round_exact[OF assms(1-3)] by (simp add: fl64_def fl64_pos_eq)

lemma fl64_of_int:
  assumes "0 \<le> n" "n \<le> 2 ^ 53"
  shows "fl64 (of_int n) = Some (of_int n)"
proof -
  consider "n = 0" | "0 < n" "n < 2 ^ 53" | "n = 2 ^ 53" using assms by linarith
  then show ?thesis
  proof cases
    case 1
    then show ?thesis by (simp add: fl64_def)
  next
    case 2
    have "(of_int n :: rat) < of_int (2 ^ 53)" using 2 by (simp only: of_int_less_iff)
    also have "\<dots> < 2 ^ 1024" by simp
    finally show ?thesis using fl64_exact[of n 0] 2 by simp
  next
    case 3
    have "fl64 (of_int 1 * 2 powi 53) = Some (of_int 1 * 2 powi 53)"
      by (rule fl64_exact) simp_all
    then show ?thesis using 3 by simp
  qed
qed

lemma fl64_1: "fl64 1 = Some 1"
  using fl64_of_int[of 1] by simp

lemma true_div_1000:
  assumes "0 \<le> v" "v \<le> 1000"
  shows "\<exists>x. true_div v 1000 = Inr x \<and> 0 \<le> x \<and> x \<le> 1"
proof -
  have "(of_int v :: rat) / of_int 1000 \<le> 1" using assms by simp
  moreover have "0 \<le> (of_int v :: rat) / of_int 1000" using assms by simp
  ultimately obtain x where "fl64 (of_int v / of_int 1000) = Some x" "0 \<le> x" "x \<le> 1"
    using fl64_mono[OF _ _ fl64_1] by blast
  then show ?thesis by (simp add: true_div_def)
qed

lemma true_div_1000_mono:
  assumes "0 \<le> v" "v \<le> w" "w \<le> 1000"
    and "true_div v 1000 = Inr x" "true_div w 1000 = Inr y"
  shows "x \<le> y"
proof -
  have y: "fl64 (of_int w / of_int 1000) = Some y"
    using assms(5) by (auto simp: true_div_def split: option.splits)
  have x: "fl64 (of_int v / of_int 1000) = Some x"
    using assms(4) by (auto simp: true_div_def split: option.splits)
  have "(of_int v :: rat) / of_int 1000 \<le> of_int w / of_int 1000"
    using assms(2) by (simp add: divide_right_mono)
  moreover have "0 \<le> (of_int v :: rat) / of_int 1000" using assms by simp
  ultimately show ?thesis using fl64_mono[OF _ _ y] x by fastforce
qed

text \<open>The cursor that set_progress computes from the clamped value.\<close>

lemma set_progress_clamped:
  assumes n: "0 \<le> song_data_length p - 1" "song_data_length p - 1 \<le> 2 ^ 53"
    and v: "0 \<le> v" "v \<le> 1000"
  shows "\<exists>x z. true_div v 1000 = Inr x \<and> fl64 (x * of_int (song_data_length p - 1)) = Some z \<and>
           0 \<le> z \<and> z \<le> of_int (song_data_length p - 1) \<and>
           set_progress v p = (p\<lparr>current_index := round_half_even z\<rparr>, None) \<and>
           0 \<le> round_half_even z \<and> round_half_even z \<le> song_data_length p - 1"
proof -
  define n1 where "n1 = song_data_length p - 1"
  obtain x where x: "true_div v 1000 = Inr x" "0 \<le> x" "x \<le> 1"
    using true_div_1000[OF v] by blast
  have y: "int_to_float n1 = Inr (of_int n1)"
    using fl64_of_int[of n1] n by (simp add: int_to_float_def n1_def)
  have n1r: "(0::rat) \<le> of_int n1" using n by (simp add: n1_def)
  have "x * of_int n1 \<le> 1 * of_int n1" using x(3) n1r by (rule mult_right_mono)
  moreover have "0 \<le> x * of_int n1" using x(2) n1r by simp
  moreover have "fl64 (of_int n1) = Some (of_int n1)" using fl64_of_int[of n1] n by (simp add: n1_def)
  ultimately obtain z where z: "fl64 (x * of_int n1) = Some z" "0 \<le> z" "z \<le> of_int n1"
    using fl64_mono[of "x * of_int n1" "of_int n1" "of_int n1"] by auto
  have r0: "0 \<le> round_half_even z"
    using round_half_even_mono[OF z(2)] round_half_even_of_int[of 0] by simp
  have r1: "round_half_even z \<le> n1"
    using round_half_even_mono[OF z(3)] by (simp only: round_half_even_of_int)
  have "set_progress v p = (p\<lparr>current_index := round_half_even z\<rparr>, None)"
    using v x(1) y z(1) r0
    by (simp add: set_progress_def n1_def[symmetric] float_mul_def py_round_def Let_def)
  then show ?thesis using x z r0 r1 unfolding n1_def by blast
qed

lemma set_progress_below: "v < 0 \<Longrightarrow> set_progress v p = set_progress 0 p"
  by (simp add: set_progress_def)

lemma set_progress_above: "1000 < v \<Longrightarrow> set_progress v p = set_progress 1000 p"
  by (simp add: set_progress_def)

lemma set_progress_clamp:
  "set_progress v p = set_progress (if v < 0 then 0 else if 1000 < v then 1000 else v) p"
  using set_progress_below[of v p] set_progress_above[of v p] by simp

lemma set_progress_0:
  assumes "0 \<le> song_data_length p - 1" "song_data_length p - 1 \<le> 2 ^ 53"
  shows "set_progress 0 p = (p\<lparr>current_index := 0\<rparr>, None)"
proof -
  have t: "true_div 0 1000 = Inr 0" by (simp add: true_div_def fl64_def)
  obtain x z where "true_div 0 1000 = Inr x" "fl64 (x * of_int (song_data_length p - 1)) = Some z"
    "set_progress 0 p = (p\<lparr>current_index := round_half_even z\<rparr>, None)"
    using set_progress_clamped[OF assms, of 0] by auto
  then show ?thesis using t round_half_even_of_int[of 0] by (simp add: fl64_def)
qed

lemma set_progress_1000:
  assumes "0 \<le> song_data_length p - 1" "song_data_length p - 1 \<le> 2 ^ 53"
  shows "set_progress 1000 p = (p\<lparr>current_index := song_data_length p - 1\<rparr>, None)"
proof -
  have t: "true_div 1000 1000 = Inr 1" using fl64_1 by (simp add: true_div_def)
  obtain x z where "true_div 1000 1000 = Inr x" "fl64 (x * of_int (song_data_length p - 1)) = Some z"
    "set_progress 1000 p = (p\<lparr>current_index := round_half_even z\<rparr>, None)"
    using set_progress_clamped[OF assms, of 1000] by auto
  then show ?thesis
    using t fl64_of_int[OF assms] round_half_even_of_int[of "song_data_length p - 1"] by simp
qed

lemma set_progress_mono_clamped:
  assumes n: "0 \<le> song_data_length p - 1" "song_data_length p - 1 \<le> 2 ^ 53"
    and "0 \<le> v" "v \<le> w" "w \<le> 1000"
  shows "current_index (fst (set_progress v p)) \<le> current_index (fst (set_progress w p))"
proof -
  define n1 where "n1 = song_data_length p - 1"
  have v: "0 \<le> v" "v \<le> 1000" and w: "0 \<le> w" "w \<le> 1000" using assms by auto
  obtain x z where xz: "true_div v 1000 = Inr x" "fl64 (x * of_int n1) = Some z"
    "set_progress v p = (p\<lparr>current_index := round_half_even z\<rparr>, None)"
    using set_progress_clamped[OF n v] unfolding n1_def by blast
  obtain x' z' where xz': "true_div w 1000 = Inr x'" "fl64 (x' * of_int n1) = Some z'"
    "set_progress w p = (p\<lparr>current_index := round_half_even z'\<rparr>, None)"
    using set_progress_clamped[OF n w] unfolding n1_def by blast
  have xx: "x \<le> x'" using true_div_1000_mono[OF assms(3,4,5) xz(1) xz'(1)] .
  have x0: "0 \<le> x" using true_div_1000[OF v] xz(1) by auto
  have n1r: "(0::rat) \<le> of_int n1" using n by (simp add: n1_def)
  have "x * of_int n1 \<le> x' * of_int n1" using xx n1r by (rule mult_right_mono)
  moreover have "0 \<le> x * of_int n1" using x0 n1r by simp
  ultimately have "z \<le> z'" using fl64_mono[OF _ _ xz'(2), of "x * of_int n1"] xz(2) by auto
  then show ?thesis using round_half_even_mono xz(3) xz'(3) by simp
qed

lemma set_progress_mono:
  assumes n: "0 \<le> song_data_length p - 1" "song_data_length p - 1 \<le> 2 ^ 53" and "v \<le> w"
  shows "current_index (fst (set_progress v p)) \<le> current_index (fst (set_progress w p))"
proof -
  define c where "c = (if v < 0 then 0 else if 1000 < v then 1000 else v)"
  define d where "d = (if w < 0 then 0 else if 1000 < w then 1000 else w)"
  have "0 \<le> c" "c \<le> d" "d \<le> 1000" using assms(3) by (auto simp: c_def d_def)
  then have "current_index (fst (set_progress c p)) \<le> current_index (fst (set_progress d p))"
    by (rule set_progress_mono_clamped[OF n])
  then show ?thesis
    using set_progress_clamp[of v p] set_progress_clamp[of w p] by (simp add: c_def d_def)
qed


section \<open>Bytes and sockets\<close>

lemma four_bytes_value:
  fixes n :: int
  assumes "0 \<le> n" "n < 2 ^ 32"
  shows "n mod 256 + 256 * (n div 256 mod 256 + 256 * (n div 65536 mod 256 + 256 * (n div 16777216 mod 256))) = n"
proof -
  define a where "a = n div 256"
  define b where "b = a div 256"
  define c where "c = b div 256"
  have nb: "n div 65536 = b" unfolding a_def b_def by (subst zdiv_zmult2_eq[symmetric]) simp_all
  have "n div 16777216 = n div (65536 * 256)" by simp
  also have "\<dots> = n div 65536 div 256" by (rule zdiv_zmult2_eq) simp
  finally have nc: "n div 16777216 = c" using nb by (simp add: c_def)
  have "0 \<le> n div 16777216 \<and> n div 16777216 < 256" using assms by auto
  then have cm: "c mod 256 = c" unfolding nc by simp
  have e1: "b mod 256 + 256 * c = b" unfolding c_def by (rule mod_mult_div_eq)
  have e2: "a mod 256 + 256 * b = a" unfolding b_def by (rule mod_mult_div_eq)
  have e3: "n mod 256 + 256 * a = n" unfolding a_def by (rule mod_mult_div_eq)
  have "n mod 256 + 256 * (a mod 256 + 256 * (b mod 256 + 256 * (c mod 256))) = n"
    unfolding cm e1 e2 e3 ..
  then show ?thesis unfolding nb nc a_def[symmetric] .
qed

lemma from_bytes_four:
  fixes n :: int
  shows "from_bytes [word_of_int n, word_of_int (n div 256),
                word_of_int (n div 65536), word_of_int (n div 16777216)]
     = n mod 256 + 256 * (n div 256 mod 256 + 256 * (n div 65536 mod 256 + 256 * (n div 16777216 mod 256)))"
  by (simp add: uint_word_of_int take_bit_eq_mod)

lemma from_to_bytes4:
  assumes "0 \<le> n" "n < 2 ^ 32"
  shows "\<exists>bs. to_bytes4 n = Inr bs \<and> length bs = 4 \<and> from_bytes bs = n"
proof -
  let ?bs = "[word_of_int n, word_of_int (n div 256),
                word_of_int (n div 65536), word_of_int (n div 16777216)] :: byte list"
  have "to_bytes4 n = Inr ?bs" using assms by (simp add: to_bytes4_def)
  moreover have "length ?bs = 4" by simp
  moreover have "from_bytes ?bs = n" unfolding from_bytes_four using assms by (rule four_bytes_value)
  ultimately show ?thesis by blast
qed

lemma tcp_send_loop_all:
  assumes "\<forall>n. 0 < grant s n" "tot \<le> length data" "buf_size = int (length data)"
  shows "\<exists>s'. tcp_send_loop broken data buf_size tot s = (s', None) \<and>
              outgoing s' = outgoing s @ drop tot data \<and> incoming s' = incoming s \<and>
              grant s' = grant s"
  using assms
proof (induction "length data - tot" arbitrary: tot s rule: less_induct)
  case less
  show ?case
  proof (cases "tot < length data")
    case False
    then show ?thesis using less.prems by (subst tcp_send_loop.simps) auto
  next
    case True
    define m where "m = min (length (drop tot data)) (grant s (calls s))"
    define s1 where "s1 = s\<lparr>outgoing := outgoing s @ take m (drop tot data), calls := Suc (calls s)\<rparr>"
    have ss: "sock_send (drop tot data) s = (m, s1)" by (simp add: sock_send_def m_def s1_def Let_def)
    have m: "0 < m" "tot + m \<le> length data" using True less.prems(1) by (auto simp: m_def)
    have "\<exists>s'. tcp_send_loop broken data buf_size (tot + m) s1 = (s', None) \<and>
              outgoing s' = outgoing s1 @ drop (tot + m) data \<and> incoming s' = incoming s1 \<and>
              grant s' = grant s1"
      using m True less.prems by (intro less.hyps) (auto simp: s1_def)
    moreover have "take m (drop tot data) @ drop (tot + m) data = drop tot data"
      by (metis append_take_drop_id drop_drop add.commute)
    ultimately show ?thesis
      using True m ss less.prems(3) by (subst tcp_send_loop.simps) (auto simp: s1_def)
  qed
qed

lemma tcp_send_all:
  assumes "\<forall>n. 0 < grant s n" "buf_size = int (length data)"
  shows "\<exists>s'. tcp_send broken data buf_size s = (s', None) \<and>
              outgoing s' = outgoing s @ data \<and> incoming s' = incoming s \<and> grant s' = grant s"
  using tcp_send_loop_all[of s 0 data buf_size broken] assms by (simp add: tcp_send_def)

lemma tcp_recv_loop_all:
  assumes "\<forall>n. 0 < grant s n" "buf_size \<le> int (length received) + int (length (incoming s))"
  shows "\<exists>s'. tcp_recv_loop broken buf_size received s =
                (Inr (received @ take (nat (buf_size - int (length received))) (incoming s)), s') \<and>
              incoming s' = drop (nat (buf_size - int (length received))) (incoming s) \<and>
              outgoing s' = outgoing s \<and> grant s' = grant s"
  using assms
proof (induction "nat (buf_size - int (length received))" arbitrary: received s rule: less_induct)
  case less
  show ?case
  proof (cases "int (length received) < buf_size")
    case False
    then show ?thesis by (subst tcp_recv_loop.simps) simp
  next
    case True
    define want where "want = nat (buf_size - int (length received))"
    define m where "m = min (min want (length (incoming s))) (grant s (calls s))"
    define s1 where "s1 = s\<lparr>incoming := drop m (incoming s), calls := Suc (calls s)\<rparr>"
    have sr: "sock_recv (buf_size - int (length received)) s = (take m (incoming s), s1)"
      by (simp add: sock_recv_def m_def s1_def want_def Let_def)
    have want: "0 < want" "want \<le> length (incoming s)" using True less.prems(2) by (auto simp: want_def)
    have m: "0 < m" "m \<le> want" "m \<le> length (incoming s)" using want less.prems(1) by (auto simp: m_def)
    have ne: "take m (incoming s) \<noteq> []" using m by auto
    have len: "length (received @ take m (incoming s)) = length received + m" using m by simp
    have w': "nat (buf_size - int (length (received @ take m (incoming s)))) = want - m"
      using m by (simp add: want_def len)
    have "\<exists>s'. tcp_recv_loop broken buf_size (received @ take m (incoming s)) s1 =
                (Inr ((received @ take m (incoming s)) @
                   take (nat (buf_size - int (length (received @ take m (incoming s))))) (incoming s1)), s') \<and>
              incoming s' = drop (nat (buf_size - int (length (received @ take m (incoming s))))) (incoming s1) \<and>
              outgoing s' = outgoing s1 \<and> grant s' = grant s1"
    proof (rule less.hyps)
      show "nat (buf_size - int (length (received @ take m (incoming s)))) < nat (buf_size - int (length received))"
        using m True unfolding w' by (simp add: want_def)
      show "\<forall>n. 0 < grant s1 n" using less.prems(1) by (simp add: s1_def)
      show "buf_size \<le> int (length (received @ take m (incoming s))) + int (length (incoming s1))"
        using less.prems(2) m by (simp add: s1_def)
    qed
    moreover have "take m (incoming s) @ take (want - m) (drop m (incoming s)) = take want (incoming s)"
      using m by (metis le_add_diff_inverse take_add)
    moreover have "drop (want - m) (drop m (incoming s)) = drop want (incoming s)"
      using m by simp
    ultimately show ?thesis
      using True ne sr unfolding w'
      by (subst tcp_recv_loop.simps) (auto simp: s1_def want_def[symmetric])
  qed
qed

lemma tcp_recv_all:
  assumes "\<forall>n. 0 < grant s n" "0 \<le> buf_size" "nat buf_size \<le> length (incoming s)"
  shows "\<exists>s'. tcp_recv broken buf_size s = (Inr (take (nat buf_size) (incoming s)), s') \<and>
              incoming s' = drop (nat buf_size) (incoming s) \<and>
              outgoing s' = outgoing s \<and> grant s' = grant s"
  using tcp_recv_loop_all[of s buf_size "[]" broken] assms by (simp add: tcp_recv_def)

section \<open>Player: set_progress\<close>

lemma true_div_500: "true_div 500 1000 = Inr (1 / 2)"
proof -
  have "fl64 (of_int 1 * 2 powi (- 1)) = Some (of_int 1 * 2 powi (- 1))"
    by (rule fl64_exact) simp_all
  then show ?thesis by (simp add: true_div_def)
qed

lemma float_mul_half_49: "float_mul (1 / 2) 49 = Some (49 / 2)"
proof -
  have "fl64 (of_int 49 * 2 powi (- 1)) = Some (of_int 49 * 2 powi (- 1))"
    by (rule fl64_exact) simp_all
  then show ?thesis by (simp add: float_mul_def)
qed

lemma int_to_float_49: "int_to_float 49 = Inr 49"
  using fl64_of_int[of 49] by (simp add: int_to_float_def)

lemma py_round_49_2: "py_round (49 / 2) = 24"
proof -
  have "\<lfloor>(49::rat) / 2\<rfloor> = 24" by (rule floor_unique) simp_all
  then show ?thesis by (simp add: py_round_def round_half_even_def)
qed

lemma set_progress_500_50:
  "song_data_length p = 50 \<Longrightarrow> set_progress 500 p = (p\<lparr>current_index := 24\<rparr>, None)"
  by (simp add: set_progress_def true_div_500 int_to_float_49 float_mul_half_49 py_round_49_2)

lemma fl64_2_53_1: "fl64 9007199254740993 = Some 9007199254740992"
  by code_simp

lemma round_half_even_err: "\<bar>of_int (round_half_even x) - x\<bar> \<le> 1 / 2"
proof -
  have "of_int \<lfloor>x\<rfloor> \<le> x" "x < of_int \<lfloor>x\<rfloor> + 1" by linarith+
  then show ?thesis by (auto simp: round_half_even_def Let_def)
qed

lemma fl64_round_err:
  assumes "2 powi (- 1022) \<le> a"
  shows "\<bar>fl64_round a - a\<bar> \<le> a * 2 powi (- 53)"
proof -
  have apos: "0 < a" using assms pow2_pos[of "- 1022"] by linarith
  define e where "e = exponent2 a"
  have eb: "2 powi e \<le> a" "a < 2 powi (e + 1)" using exponent2_bounds[OF apos] by (simp_all add: e_def)
  have "(2::rat) powi (- 1022) < 2 powi (e + 1)" using assms eb(2) by linarith
  then have "- 1022 < e + 1" by (rule pow2_less_imp)
  then have me: "max e (- 1022) = e" by simp
  define u :: rat where "u = 2 powi (e - 52)"
  have u: "0 < u" by (simp add: u_def)
  define k where "k = round_half_even (a / u)"
  have fr: "fl64_round a = of_int k * u" by (simp add: fl64_round_def e_def[symmetric] me u_def k_def Let_def)
  have "\<bar>of_int k - a / u\<bar> \<le> 1 / 2" unfolding k_def by (rule round_half_even_err)
  then have "\<bar>of_int k - a / u\<bar> * u \<le> 1 / 2 * u" using u by (intro mult_right_mono) simp_all
  moreover have "\<bar>of_int k - a / u\<bar> * u = \<bar>of_int k * u - a\<bar>"
  proof -
    have "\<bar>of_int k - a / u\<bar> * u = \<bar>(of_int k - a / u) * u\<bar>" using u by (simp add: abs_mult)
    also have "(of_int k - a / u) * u = of_int k * u - a" using u by (simp add: algebra_simps)
    finally show ?thesis .
  qed
  ultimately have "\<bar>fl64_round a - a\<bar> \<le> u / 2" by (simp add: fr)
  moreover have "u / 2 = 2 powi e * 2 powi (- 53)"
  proof -
    have "e - 52 = (e + (- 53)) + 1" by simp
    then have "u = 2 powi ((e + (- 53)) + 1)" unfolding u_def by (rule arg_cong)
    also have "\<dots> = 2 powi (e + (- 53)) * 2" by (rule power_int_add_1) simp
    also have "2 powi (e + (- 53)) = (2::rat) powi e * 2 powi (- 53)" by (rule power_int_add) simp
    finally show ?thesis by simp
  qed
  moreover have "2 powi e * 2 powi (- 53) \<le> a * 2 powi (- 53)"
    using eb(1) by (intro mult_right_mono) simp_all
  ultimately show ?thesis by linarith
qed

lemma set_progress_linear:
  assumes n: "0 \<le> song_data_length p - 1" "song_data_length p - 1 \<le> 2 ^ 53"
    and c: "0 \<le> c" "c \<le> 1000"
  shows "\<bar>of_int (current_index (fst (set_progress c p)))
            - of_int c * of_int (song_data_length p - 1) / 1000\<bar>
         \<le> (1 / 2 + 3 * of_int (song_data_length p - 1) * 2 powi (- 53) :: rat)"
proof -
  define n1 where "n1 = song_data_length p - 1"
  define N :: rat where "N = of_int n1"
  define eps :: rat where "eps = 2 powi (- 53)"
  have N0: "0 \<le> N" using n(1) by (simp add: N_def n1_def)
  have eps: "0 < eps" "eps \<le> 1"
  proof -
    show "0 < eps" by (simp add: eps_def)
    have "(2::rat) powi (- 53) \<le> 2 powi 0" by (rule pow2_mono) simp
    then show "eps \<le> 1" by (simp add: eps_def)
  qed
  obtain x z where xz: "true_div c 1000 = Inr x" "fl64 (x * N) = Some z"
    "set_progress c p = (p\<lparr>current_index := round_half_even z\<rparr>, None)"
    using set_progress_clamped[OF n c] unfolding n1_def[symmetric] N_def by blast
  define a :: rat where "a = of_int c / 1000"
  have fx: "fl64 a = Some x"
    using xz(1) by (auto simp: true_div_def a_def split: option.splits)
  have cur: "of_int (current_index (fst (set_progress c p))) = (of_int (round_half_even z) :: rat)"
    using xz(3) by simp
  have rz: "\<bar>of_int (round_half_even z) - z\<bar> \<le> 1 / 2" by (rule round_half_even_err)
  have zerr: "\<bar>z - a * N\<bar> \<le> 3 * N * eps"
  proof (cases "c = 0 \<or> n1 = 0")
    case True
    then have "x * N = 0" using fx by (auto simp: a_def fl64_def N_def)
    then have "z = 0" using xz(2) by (simp add: fl64_def)
    moreover have "a * N = 0" using True by (auto simp: a_def N_def)
    ultimately have "\<bar>z - a * N\<bar> = 0" by (simp only: diff_zero abs_zero)
    moreover have "0 \<le> 3 * N * eps" using N0 eps(1) by simp
    ultimately show ?thesis by (simp only:)
  next
    case False
    then have c1: "1 \<le> c" and n11: "1 \<le> n1" using c(1) n(1) by (simp_all add: n1_def)
    have N1: "1 \<le> N" using n11 by (simp add: N_def)
    have "(of_int 1 :: rat) \<le> of_int c" using c1 by (simp only: of_int_le_iff)
    then have a_lo: "1 / 1000 \<le> a" by (simp add: a_def)
    have "(of_int c :: rat) \<le> of_int 1000" using c(2) by (simp only: of_int_le_iff)
    then have a_hi: "a \<le> 1" by (simp add: a_def)
    have tiny: "(2::rat) powi (- 1022) \<le> 1 / 2048"
    proof -
      have "(2::rat) powi (- 1022) \<le> 2 powi (- 11)" by (rule pow2_mono) simp
      then show ?thesis by simp
    qed
    have apos: "0 < a" using a_lo by linarith
    have xa: "x = fl64_round a"
      using fx apos by (auto simp: fl64_def fl64_pos_eq split: if_splits)
    have xe: "\<bar>x - a\<bar> \<le> a * eps"
      unfolding xa eps_def using tiny a_lo by (intro fl64_round_err) linarith
    have "a * eps \<le> a * 1" using eps(2) apos by (intro mult_left_mono) simp_all
    then have x2: "x \<le> 2 * a" using xe by linarith
    have "a * eps \<le> a * (1 / 2)"
    proof -
      have "(2::rat) powi (- 53) \<le> 2 powi (- 1)" by (rule pow2_mono) simp
      then have "eps \<le> 1 / 2" by (simp add: eps_def)
      then show ?thesis using apos by (intro mult_left_mono) simp_all
    qed
    then have xl: "a / 2 \<le> x" using xe by linarith
    define b where "b = x * N"
    have "x * 1 \<le> x * N" using N1 xl apos by (intro mult_left_mono) linarith+
    then have "x \<le> b" by (simp add: b_def)
    then have b_lo: "1 / 2000 \<le> b" using xl a_lo by linarith
    have bpos: "0 < b" using b_lo by linarith
    have zb: "z = fl64_round b"
      using xz(2) bpos by (auto simp: b_def fl64_def fl64_pos_eq split: if_splits)
    have ze: "\<bar>z - b\<bar> \<le> b * eps"
      unfolding zb eps_def using tiny b_lo by (intro fl64_round_err) linarith
    have "b \<le> 2 * a * N" unfolding b_def using x2 N0 by (intro mult_right_mono) simp_all
    then have "b * eps \<le> 2 * a * N * eps" using eps(1) by (intro mult_right_mono) simp_all
    then have t1: "\<bar>z - b\<bar> \<le> 2 * (a * (N * eps))" using ze by (simp add: algebra_simps)
    have "\<bar>b - a * N\<bar> = \<bar>x - a\<bar> * N"
    proof -
      have "b - a * N = (x - a) * N" by (simp add: b_def algebra_simps)
      then show ?thesis using N0 by (simp add: abs_mult)
    qed
    also have "\<dots> \<le> a * eps * N" using xe N0 by (intro mult_right_mono) simp_all
    finally have t2: "\<bar>b - a * N\<bar> \<le> a * (N * eps)" by (simp add: algebra_simps)
    have "a * (N * eps) \<le> 1 * (N * eps)" using a_hi N0 eps(1) by (intro mult_right_mono) simp_all
    then have "3 * (a * (N * eps)) \<le> 3 * N * eps" by simp
    moreover have "\<bar>z - a * N\<bar> \<le> \<bar>z - b\<bar> + \<bar>b - a * N\<bar>" by linarith
    ultimately show ?thesis using t1 t2 by linarith
  qed
  have fin: "\<bar>of_int (round_half_even z) - a * N\<bar> \<le> 1 / 2 + 3 * N * eps"
    using rz zerr by linarith
  have aN: "a * N = of_int c * N / 1000"
    unfolding a_def by (simp only: times_divide_eq_left)
  have "\<bar>of_int (round_half_even z) - of_int c * N / 1000\<bar> \<le> 1 / 2 + 3 * N * eps"
    using fin by (simp only: aN)
  then show ?thesis
    unfolding cur N_def n1_def eps_def .
qed

text \<open>
  C6.  The claim takes every frame count \<open>n \<ge> 1\<close>.  The cursor is computed in floating
  point, and a frame count minus one that is not a binary64 number is rounded when it is
  converted: with \<open>n = 2^53 + 2\<close>, \<open>set_progress(1000)\<close> gives the cursor \<open>2^53\<close>, which
  is not \<open>n - 1\<close>.
\<close>

theorem C6_set_progress_counterexample:
  "1 \<le> song_data_length (set_song_data_length 9007199254740994 new_player) \<and>
   current_index (fst (set_progress 1000 (set_song_data_length 9007199254740994 new_player)))
     = 9007199254740992 \<and>
   current_index (fst (set_progress 1000 (set_song_data_length 9007199254740994 new_player)))
     \<noteq> song_data_length (set_song_data_length 9007199254740994 new_player) - 1"
proof -
  have a: "true_div 1000 1000 = Inr 1" using fl64_1 by (simp add: true_div_def)
  have b: "int_to_float 9007199254740993 = Inr 9007199254740992"
    using fl64_2_53_1 by (simp add: int_to_float_def)
  have c: "float_mul 1 9007199254740992 = Some 9007199254740992"
    using fl64_of_int[of 9007199254740992] by (simp add: float_mul_def)
  have d: "py_round 9007199254740992 = 9007199254740992"
    using round_half_even_of_int[of 9007199254740992] by (simp add: py_round_def)
  show ?thesis
    by (simp add: set_progress_def set_song_data_length_def a b c d)
qed

text \<open>
  C6, amended.  For every frame count \<open>n\<close> with \<open>1 \<le> n \<le> 2^53 + 1\<close>:
  \<open>set_progress(0)\<close> gives cursor 0, \<open>set_progress(1000)\<close> gives cursor \<open>n - 1\<close>, and
  \<open>set_progress(500)\<close> with \<open>n = 50\<close> gives cursor 24; a value below 0 acts as 0 and a
  value above 1000 as 1000; no call raises; the cursor lies in \<open>0 .. n - 1\<close>, is
  monotonic in the value, and differs from \<open>v (n - 1) / 1000\<close>, for the clamped value
  \<open>v\<close>, by at most \<open>1/2 + 3 (n - 1) / 2^53\<close>.
\<close>

theorem C6_set_progress:
  assumes "1 \<le> song_data_length p" "song_data_length p \<le> 2 ^ 53 + 1"
  shows "set_progress 0 p = (p\<lparr>current_index := 0\<rparr>, None) \<and>
         set_progress 1000 p = (p\<lparr>current_index := song_data_length p - 1\<rparr>, None) \<and>
         (song_data_length p = 50 \<longrightarrow> set_progress 500 p = (p\<lparr>current_index := 24\<rparr>, None)) \<and>
         (v < 0 \<longrightarrow> set_progress v p = set_progress 0 p) \<and>
         (1000 < v \<longrightarrow> set_progress v p = set_progress 1000 p) \<and>
         snd (set_progress v p) = None \<and>
         0 \<le> current_index (fst (set_progress v p)) \<and>
         current_index (fst (set_progress v p)) \<le> song_data_length p - 1 \<and>
         (v \<le> w \<longrightarrow>
            current_index (fst (set_progress v p)) \<le> current_index (fst (set_progress w p))) \<and>
         \<bar>of_int (current_index (fst (set_progress v p)))
            - of_int (if v < 0 then 0 else if 1000 < v then 1000 else v)
                * of_int (song_data_length p - 1) / 1000\<bar>
           \<le> (1 / 2 + 3 * of_int (song_data_length p - 1) * 2 powi (- 53) :: rat)"
proof -
  have n: "0 \<le> song_data_length p - 1" "song_data_length p - 1 \<le> 2 ^ 53"
    using assms by simp_all
  define c where "c = (if v < 0 then 0 else if 1000 < v then 1000 else v)"
  have c: "0 \<le> c" "c \<le> 1000" by (simp_all add: c_def)
  have vc: "set_progress v p = set_progress c p"
    unfolding c_def by (rule set_progress_clamp)
  obtain z where z: "set_progress c p = (p\<lparr>current_index := round_half_even z\<rparr>, None)"
    "0 \<le> round_half_even z" "round_half_even z \<le> song_data_length p - 1"
    using set_progress_clamped[OF n c] by blast
  have range: "snd (set_progress v p) = None"
    "0 \<le> current_index (fst (set_progress v p))"
    "current_index (fst (set_progress v p)) \<le> song_data_length p - 1"
    using z by (simp_all add: vc)
  have lin: "\<bar>of_int (current_index (fst (set_progress v p)))
            - of_int (if v < 0 then 0 else if 1000 < v then 1000 else v)
                * of_int (song_data_length p - 1) / 1000\<bar>
           \<le> (1 / 2 + 3 * of_int (song_data_length p - 1) * 2 powi (- 53) :: rat)"
    using set_progress_linear[OF n c] unfolding vc c_def .
  have rest: "set_progress 0 p = (p\<lparr>current_index := 0\<rparr>, None) \<and>
         set_progress 1000 p = (p\<lparr>current_index := song_data_length p - 1\<rparr>, None) \<and>
         (song_data_length p = 50 \<longrightarrow> set_progress 500 p = (p\<lparr>current_index := 24\<rparr>, None)) \<and>
         (v < 0 \<longrightarrow> set_progress v p = set_progress 0 p) \<and>
         (1000 < v \<longrightarrow> set_progress v p = set_progress 1000 p) \<and>
         snd (set_progress v p) = None \<and>
         0 \<le> current_index (fst (set_progress v p)) \<and>
         current_index (fst (set_progress v p)) \<le> song_data_length p - 1 \<and>
         (v \<le> w \<longrightarrow>
            current_index (fst (set_progress v p)) \<le> current_index (fst (set_progress w p)))"
    using set_progress_0[OF n] set_progress_1000[OF n] set_progress_500_50[of p]
      set_progress_below[of v p] set_progress_above[of v p] range
      set_progress_mono[OF n, of v w]
    by simp
  show ?thesis using rest lin by blast
qed

theorem C6_set_progress_witness:
  "1 \<le> song_data_length (set_song_data_length 50 new_player) \<and>
   song_data_length (set_song_data_length 50 new_player) \<le> 2 ^ 53 + 1 \<and>
   current_index (fst (set_progress 0 (set_song_data_length 50 new_player))) = 0 \<and>
   current_index (fst (set_progress 1000 (set_song_data_length 50 new_player))) = 49 \<and>
   current_index (fst (set_progress 500 (set_song_data_length 50 new_player))) = 24 \<and>
   set_progress (- 1) (set_song_data_length 50 new_player)
     = set_progress 0 (set_song_data_length 50 new_player) \<and>
   set_progress 1001 (set_song_data_length 50 new_player)
     = set_progress 1000 (set_song_data_length 50 new_player) \<and>
   current_index (fst (set_progress 500 (set_song_data_length 50 new_player)))
     \<le> current_index (fst (set_progress 1000 (set_song_data_length 50 new_player)))"
proof -
  let ?p = "set_song_data_length 50 new_player"
  have h: "1 \<le> song_data_length ?p" "song_data_length ?p \<le> 2 ^ 53 + 1"
    by (simp_all add: set_song_data_length_def)
  have l: "song_data_length ?p = 50" by (simp add: set_song_data_length_def)
  show ?thesis
    using h l C6_set_progress[OF h, of "- 1" 0] C6_set_progress[OF h, of 1001 1001]
      C6_set_progress[OF h, of 500 1000]
    by simp
qed

section \<open>ClientHandler: sending a song\<close>

lemma streaming_tcp_send_ok:
  assumes "\<forall>n. 0 < grant (streaming_socket h) n" "buf_size = int (length data)"
  shows "\<exists>h'. streaming_tcp_send data buf_size h = (h', None) \<and>
           outgoing (streaming_socket h') = outgoing (streaming_socket h) @ data \<and>
           grant (streaming_socket h') = grant (streaming_socket h) \<and>
           stop_send h' = stop_send h \<and> catalog h' = catalog h"
proof -
  obtain s' where "tcp_send ConnectionResetError data buf_size (streaming_socket h) = (s', None)"
    "outgoing s' = outgoing (streaming_socket h) @ data" "grant s' = grant (streaming_socket h)"
    using tcp_send_all[OF assms] by blast
  then show ?thesis by (simp add: streaming_tcp_send_def)
qed

lemma type_lengths: "length type_data = 4" "length type_exit = 4"
  by (simp_all add: type_data_def type_exit_def encode_def)

lemma send_packets_all:
  assumes "\<forall>n. 0 < grant (streaming_socket h) n"
    and "\<forall>k<length (full_packets pkt w). \<not> (env (i + k) \<or> (k = 0 \<and> stop_send h))"
  shows "\<exists>h'. send_packets env i pkt w h = (h', None) \<and>
           outgoing (streaming_socket h') =
             outgoing (streaming_socket h) @ concat (map frame (full_packets pkt w)) \<and>
           grant (streaming_socket h') = grant (streaming_socket h) \<and>
           stop_send h' = stop_send h \<and> catalog h' = catalog h"
  using assms
proof (induction pkt w arbitrary: i h rule: full_packets.induct)
  case (1 pkt w)
  show ?case
  proof (cases "length pkt = chunk * 4")
    case False
    then show ?thesis
      by (simp add: send_packets.simps[of env i pkt] full_packets.simps[of pkt])
  next
    case True
    obtain nxt rest where rf: "readframes chunk w = (nxt, rest)" by (cases "readframes chunk w")
    have fp: "full_packets pkt w = pkt # full_packets nxt rest"
      using True rf by (simp add: full_packets.simps[of pkt])
    have flag: "\<not> stop_send h" "\<not> env i" using "1.prems"(2) fp by auto
    have later: "\<forall>k<length (full_packets nxt rest). \<not> env (Suc i + k)"
    proof (intro allI impI)
      fix k assume "k < length (full_packets nxt rest)"
      then have "Suc k < length (full_packets pkt w)" by (simp add: fp)
      then show "\<not> env (Suc i + k)" using "1.prems"(2) by fastforce
    qed
    define h1 where "h1 = h\<lparr>stop_send := (stop_send h \<or> env i)\<rparr>"
    have h1: "\<forall>n. 0 < grant (streaming_socket h1) n" "\<not> stop_send h1"
      using "1.prems"(1) flag by (simp_all add: h1_def)
    obtain h2 where h2: "streaming_tcp_send type_data 4 h1 = (h2, None)"
      "outgoing (streaming_socket h2) = outgoing (streaming_socket h1) @ type_data"
      "grant (streaming_socket h2) = grant (streaming_socket h1)"
      "stop_send h2 = stop_send h1" "catalog h2 = catalog h1"
      using streaming_tcp_send_ok[OF h1(1), of 4 type_data] type_lengths by auto
    have g2: "\<forall>n. 0 < grant (streaming_socket h2) n" using h1(1) h2(3) by simp
    obtain h3 where h3: "streaming_tcp_send pkt 4096 h2 = (h3, None)"
      "outgoing (streaming_socket h3) = outgoing (streaming_socket h2) @ pkt"
      "grant (streaming_socket h3) = grant (streaming_socket h2)"
      "stop_send h3 = stop_send h2" "catalog h3 = catalog h2"
      using streaming_tcp_send_ok[OF g2, of 4096 pkt] True by (auto simp: chunk_def)
    have g3: "\<forall>n. 0 < grant (streaming_socket h3) n" using g2 h3(3) by simp
    have s3: "\<not> stop_send h3" using h1(2) h2(4) h3(4) by simp
    have "\<exists>h'. send_packets env (Suc i) nxt rest h3 = (h', None) \<and>
           outgoing (streaming_socket h') =
             outgoing (streaming_socket h3) @ concat (map frame (full_packets nxt rest)) \<and>
           grant (streaming_socket h') = grant (streaming_socket h3) \<and>
           stop_send h' = stop_send h3 \<and> catalog h' = catalog h3"
      using True rf g3 later s3 by (intro "1.IH"[of nxt rest]) auto
    then obtain h' where h': "send_packets env (Suc i) nxt rest h3 = (h', None)"
      "outgoing (streaming_socket h') =
             outgoing (streaming_socket h3) @ concat (map frame (full_packets nxt rest))"
      "grant (streaming_socket h') = grant (streaming_socket h3)"
      "stop_send h' = stop_send h3" "catalog h' = catalog h3"
      by blast
    have "send_packets env i pkt w h = (h', None)"
      using True h1(2) h2(1) h3(1) rf h'(1)
      by (subst send_packets.simps) (simp add: h1_def[symmetric] Let_def)
    moreover have "outgoing (streaming_socket h') =
        outgoing (streaming_socket h) @ concat (map frame (full_packets pkt w))"
      using h'(2) h3(2) h2(2) by (simp add: fp frame_def h1_def)
    moreover have "grant (streaming_socket h') = grant (streaming_socket h)"
      using h'(3) h3(3) h2(3) by (simp add: h1_def)
    moreover have "stop_send h' = stop_send h" using h'(4) s3 flag by simp
    moreover have "catalog h' = catalog h" using h'(5) h3(5) h2(5) by (simp add: h1_def)
    ultimately show ?thesis by blast
  qed
qed

lemma full_packets_length: "p \<in> set (full_packets pkt w) \<Longrightarrow> length p = 4096"
proof (induction pkt w rule: full_packets.induct)
  case (1 pkt w)
  show ?case
  proof (cases "length pkt = chunk * 4")
    case False
    then show ?thesis using "1.prems" by (simp add: full_packets.simps[of pkt])
  next
    case True
    obtain nxt rest where rf: "readframes chunk w = (nxt, rest)" by (cases "readframes chunk w")
    have "full_packets pkt w = pkt # full_packets nxt rest"
      using True rf by (simp add: full_packets.simps[of pkt])
    then consider "p = pkt" | "p \<in> set (full_packets nxt rest)" using "1.prems" by auto
    then show ?thesis
    proof cases
      case 1
      then show ?thesis using True by (simp add: chunk_def)
    next
      case 2
      then show ?thesis using "1.IH"[OF True rf[symmetric]] by simp
    qed
  qed
qed

lemma send_packets_stopped:
  assumes "\<forall>n. 0 < grant (streaming_socket h) n"
    and "j < length (full_packets pkt w)"
    and "\<forall>k<j. \<not> (env (i + k) \<or> (k = 0 \<and> stop_send h))"
    and "env (i + j) \<or> (j = 0 \<and> stop_send h)"
  shows "\<exists>h'. send_packets env i pkt w h = (h', None) \<and>
           outgoing (streaming_socket h') =
             outgoing (streaming_socket h) @ concat (map frame (take j (full_packets pkt w)))
               @ type_exit \<and>
           grant (streaming_socket h') = grant (streaming_socket h) \<and>
           \<not> stop_send h' \<and> catalog h' = catalog h"
  using assms
proof (induction pkt w arbitrary: i j h rule: full_packets.induct)
  case (1 pkt w)
  show ?case
  proof (cases "length pkt = chunk * 4")
    case False
    then show ?thesis using "1.prems"(2) by (simp add: full_packets.simps[of pkt])
  next
    case True
    obtain nxt rest where rf: "readframes chunk w = (nxt, rest)" by (cases "readframes chunk w")
    have fp: "full_packets pkt w = pkt # full_packets nxt rest"
      using True rf by (simp add: full_packets.simps[of pkt])
    define h1 where "h1 = h\<lparr>stop_send := (stop_send h \<or> env i)\<rparr>"
    have g1: "\<forall>n. 0 < grant (streaming_socket h1) n"
      using "1.prems"(1) by (simp add: h1_def)
    show ?thesis
    proof (cases j)
      case 0
      then have st: "stop_send h1" using "1.prems"(4) by (auto simp: h1_def)
      have g: "\<forall>n. 0 < grant (streaming_socket (h1\<lparr>stop_send := False\<rparr>)) n" using g1 by simp
      obtain h' where h': "streaming_tcp_send type_exit 4 (h1\<lparr>stop_send := False\<rparr>) = (h', None)"
        "outgoing (streaming_socket h') = outgoing (streaming_socket (h1\<lparr>stop_send := False\<rparr>)) @ type_exit"
        "grant (streaming_socket h') = grant (streaming_socket (h1\<lparr>stop_send := False\<rparr>))"
        "stop_send h' = stop_send (h1\<lparr>stop_send := False\<rparr>)"
        "catalog h' = catalog (h1\<lparr>stop_send := False\<rparr>)"
        using streaming_tcp_send_ok[OF g, of 4 type_exit] type_lengths by auto
      have "send_packets env i pkt w h = (h', None)"
        using True st h'(1) by (subst send_packets.simps) (simp add: h1_def[symmetric] Let_def)
      then show ?thesis using h' 0 by (simp add: h1_def)
    next
      case (Suc j')
      have flag: "\<not> stop_send h" "\<not> env i" using "1.prems"(3) Suc by auto
      then have s1: "\<not> stop_send h1" by (simp add: h1_def)
      obtain h2 where h2: "streaming_tcp_send type_data 4 h1 = (h2, None)"
        "outgoing (streaming_socket h2) = outgoing (streaming_socket h1) @ type_data"
        "grant (streaming_socket h2) = grant (streaming_socket h1)"
        "stop_send h2 = stop_send h1" "catalog h2 = catalog h1"
        using streaming_tcp_send_ok[OF g1, of 4 type_data] type_lengths by auto
      have g2: "\<forall>n. 0 < grant (streaming_socket h2) n" using g1 h2(3) by simp
      obtain h3 where h3: "streaming_tcp_send pkt 4096 h2 = (h3, None)"
        "outgoing (streaming_socket h3) = outgoing (streaming_socket h2) @ pkt"
        "grant (streaming_socket h3) = grant (streaming_socket h2)"
        "stop_send h3 = stop_send h2" "catalog h3 = catalog h2"
        using streaming_tcp_send_ok[OF g2, of 4096 pkt] True by (auto simp: chunk_def)
      have g3: "\<forall>n. 0 < grant (streaming_socket h3) n" using g2 h3(3) by simp
      have s3: "\<not> stop_send h3" using s1 h2(4) h3(4) by simp
      have j': "j' < length (full_packets nxt rest)" using "1.prems"(2) Suc fp by simp
      have before: "\<forall>k<j'. \<not> (env (Suc i + k) \<or> (k = 0 \<and> stop_send h3))"
      proof (intro allI impI)
        fix k assume "k < j'"
        then have "Suc k < j" using Suc by simp
        then have "\<not> env (i + Suc k)" using "1.prems"(3) by blast
        then show "\<not> (env (Suc i + k) \<or> (k = 0 \<and> stop_send h3))" using s3 by simp
      qed
      have at: "env (Suc i + j') \<or> (j' = 0 \<and> stop_send h3)"
        using "1.prems"(4) Suc by simp
      have "\<exists>h'. send_packets env (Suc i) nxt rest h3 = (h', None) \<and>
           outgoing (streaming_socket h') =
             outgoing (streaming_socket h3) @ concat (map frame (take j' (full_packets nxt rest)))
               @ type_exit \<and>
           grant (streaming_socket h') = grant (streaming_socket h3) \<and>
           \<not> stop_send h' \<and> catalog h' = catalog h3"
        using True rf g3 j' before at by (intro "1.IH"[of nxt rest]) auto
      then obtain h' where h': "send_packets env (Suc i) nxt rest h3 = (h', None)"
        "outgoing (streaming_socket h') =
             outgoing (streaming_socket h3) @ concat (map frame (take j' (full_packets nxt rest)))
               @ type_exit"
        "grant (streaming_socket h') = grant (streaming_socket h3)"
        "\<not> stop_send h'" "catalog h' = catalog h3"
        by blast
      have "send_packets env i pkt w h = (h', None)"
        using True s1 h2(1) h3(1) rf h'(1)
        by (subst send_packets.simps) (simp add: h1_def[symmetric] Let_def)
      moreover have "outgoing (streaming_socket h') =
          outgoing (streaming_socket h) @ concat (map frame (take j (full_packets pkt w))) @ type_exit"
        using h'(2) h3(2) h2(2) Suc by (simp add: fp frame_def h1_def)
      moreover have "grant (streaming_socket h') = grant (streaming_socket h)"
        using h'(3) h3(3) h2(3) by (simp add: h1_def)
      moreover have "catalog h' = catalog h" using h'(5) h3(5) h2(5) by (simp add: h1_def)
      ultimately show ?thesis using h'(4) by blast
    qed
  qed
qed

lemma to_bytes4_length: "to_bytes4 n = Inr bs \<Longrightarrow> length bs = 4"
  by (auto simp: to_bytes4_def split: if_splits)

lemma send_song_data_found:
  assumes "\<forall>n. 0 < grant (streaming_socket h) n"
    and "get_song_and_length h sid = Inr (Some (w, cnt))"
    and "to_bytes4 cnt = Inr cb"
    and "readframes chunk w = (pkt, rest)"
  obtains h1 where "send_song_data env sid h = send_packets env 0 pkt rest h1"
    "outgoing (streaming_socket h1) = outgoing (streaming_socket h) @ cb"
    "grant (streaming_socket h1) = grant (streaming_socket h)"
    "stop_send h1 = stop_send h" "catalog h1 = catalog h"
proof -
  obtain h1 where h1: "streaming_tcp_send cb 4 h = (h1, None)"
    "outgoing (streaming_socket h1) = outgoing (streaming_socket h) @ cb"
    "grant (streaming_socket h1) = grant (streaming_socket h)"
    "stop_send h1 = stop_send h" "catalog h1 = catalog h"
    using streaming_tcp_send_ok[OF assms(1), of 4 cb] to_bytes4_length[OF assms(3)] by auto
  have "send_song_data env sid h = send_packets env 0 pkt rest h1"
    using assms(2,3,4) h1(1) by (simp add: send_song_data_def)
  then show ?thesis using that h1 by blast
qed

text \<open>
  C9.  A transfer of a song that the catalog holds, on a connection that stays up.  Every
  packet sent has 4096 bytes and follows its own \<open>data\<close> tag.  The flag is read once
  before each frame, the first one included.  If no reading finds it set, all frames are
  sent and the flag is left alone.  If the reading before frame \<open>j\<close> is the first that
  finds it set, the bytes on the wire are the count, the \<open>j\<close> whole frames before it and
  the \<open>exit\<close> tag, nothing after it, and the flag is clear afterwards.
\<close>

theorem C9_stop_flag_at_frame_boundaries:
  assumes "\<forall>n. 0 < grant (streaming_socket h) n"
    and "get_song_and_length h sid = Inr (Some (w, cnt))"
    and "to_bytes4 cnt = Inr cb"
    and "readframes chunk w = (pkt, rest)"
  shows "(\<forall>p\<in>set (full_packets pkt rest). length p = 4096) \<and>
         ((\<forall>k<length (full_packets pkt rest). \<not> flag_read env h k) \<longrightarrow>
            snd (send_song_data env sid h) = None \<and>
            outgoing (streaming_socket (fst (send_song_data env sid h))) =
              outgoing (streaming_socket h) @ cb @ concat (map frame (full_packets pkt rest)) \<and>
            stop_send (fst (send_song_data env sid h)) = stop_send h) \<and>
         (\<forall>j<length (full_packets pkt rest).
            (\<forall>k<j. \<not> flag_read env h k) \<and> flag_read env h j \<longrightarrow>
            snd (send_song_data env sid h) = None \<and>
            outgoing (streaming_socket (fst (send_song_data env sid h))) =
              outgoing (streaming_socket h) @ cb @
                concat (map frame (take j (full_packets pkt rest))) @ type_exit \<and>
            \<not> stop_send (fst (send_song_data env sid h)))"
proof -
  obtain h1 where h1: "send_song_data env sid h = send_packets env 0 pkt rest h1"
    "outgoing (streaming_socket h1) = outgoing (streaming_socket h) @ cb"
    "grant (streaming_socket h1) = grant (streaming_socket h)"
    "stop_send h1 = stop_send h"
    using send_song_data_found[OF assms] by blast
  have g1: "\<forall>n. 0 < grant (streaming_socket h1) n" using assms(1) h1(3) by simp
  have a: "\<forall>p\<in>set (full_packets pkt rest). length p = 4096"
    using full_packets_length by blast
  have b: "snd (send_song_data env sid h) = None \<and>
            outgoing (streaming_socket (fst (send_song_data env sid h))) =
              outgoing (streaming_socket h) @ cb @ concat (map frame (full_packets pkt rest)) \<and>
            stop_send (fst (send_song_data env sid h)) = stop_send h"
    if "\<forall>k<length (full_packets pkt rest). \<not> flag_read env h k"
  proof -
    have "\<forall>k<length (full_packets pkt rest). \<not> (env (0 + k) \<or> (k = 0 \<and> stop_send h1))"
      using that by (simp add: flag_read_def h1(4))
    from send_packets_all[OF g1 this] show ?thesis using h1 by auto
  qed
  have c: "snd (send_song_data env sid h) = None \<and>
            outgoing (streaming_socket (fst (send_song_data env sid h))) =
              outgoing (streaming_socket h) @ cb @
                concat (map frame (take j (full_packets pkt rest))) @ type_exit \<and>
            \<not> stop_send (fst (send_song_data env sid h))"
    if "j < length (full_packets pkt rest)" "\<forall>k<j. \<not> flag_read env h k" "flag_read env h j" for j
  proof -
    have 1: "\<forall>k<j. \<not> (env (0 + k) \<or> (k = 0 \<and> stop_send h1))"
      using that(2) by (simp add: flag_read_def h1(4))
    have 2: "env (0 + j) \<or> (j = 0 \<and> stop_send h1)"
      using that(3) by (simp add: flag_read_def h1(4))
    from send_packets_stopped[OF g1 that(1) 1 2] show ?thesis using h1 by auto
  qed
  show ?thesis using a b c by blast
qed

lemma true_div_3072: "true_div 3072 1024 = Inr 3"
  using fl64_of_int[of 3] by (simp add: true_div_def)

lemma test_handler_song_7:
  "get_song_and_length test_handler 7 = Inr (Some (test_wave, 3))"
  by (simp add: get_song_and_length_def test_handler_def getnframes_def test_wave_def
        chunk_def true_div_3072 py_trunc_def)

lemma to_bytes4_3: "to_bytes4 3 = Inr [3, 0, 0, 0]"
  by (simp add: to_bytes4_def)

lemma to_bytes4_0: "to_bytes4 0 = Inr [0, 0, 0, 0]"
  by (simp add: to_bytes4_def)

lemma test_wave_first:
  "readframes chunk test_wave =
     (replicate 4096 1, \<lparr>frame_size = 4, audio = replicate 4096 2 @ replicate 4096 3\<rparr>)"
  by (simp add: readframes_def chunk_def test_wave_def)

lemma test_wave_packets:
  "full_packets (replicate 4096 1) \<lparr>frame_size = 4, audio = replicate 4096 2 @ replicate 4096 3\<rparr>
     = [replicate 4096 1, replicate 4096 2, replicate 4096 3]"
  by (simp add: full_packets.simps readframes_def chunk_def)

theorem C9_stop_flag_at_frame_boundaries_witness:
  "(\<forall>n. 0 < grant (streaming_socket test_handler) n) \<and>
   get_song_and_length test_handler 7 = Inr (Some (test_wave, 3)) \<and>
   to_bytes4 3 = Inr [3, 0, 0, 0] \<and>
   flag_read (\<lambda>k. k = 1) test_handler 1 \<and> \<not> flag_read (\<lambda>k. k = 1) test_handler 0 \<and>
   outgoing (streaming_socket (fst (send_song_data (\<lambda>k. k = 1) 7 test_handler))) =
     [3, 0, 0, 0] @ frame (replicate 4096 1) @ type_exit \<and>
   \<not> stop_send (fst (send_song_data (\<lambda>k. k = 1) 7 test_handler)) \<and>
   outgoing (streaming_socket (fst (send_song_data (\<lambda>k. False) 7 test_handler))) =
     [3, 0, 0, 0] @ frame (replicate 4096 1) @ frame (replicate 4096 2) @ frame (replicate 4096 3)"
proof -
  have g: "\<forall>n. 0 < grant (streaming_socket test_handler) n"
    by (simp add: test_handler_def fresh_socket_def)
  have o: "outgoing (streaming_socket test_handler) = []"
    by (simp add: test_handler_def fresh_socket_def)
  have f: "flag_read (\<lambda>k. k = 1) test_handler 1" "\<not> flag_read (\<lambda>k. k = 1) test_handler 0"
    "\<And>k. \<not> flag_read (\<lambda>k. False) test_handler k"
    by (simp_all add: flag_read_def test_handler_def)
  note thm1 = C9_stop_flag_at_frame_boundaries[OF g test_handler_song_7 to_bytes4_3 test_wave_first,
      of "\<lambda>k. k = 1"]
  note thm2 = C9_stop_flag_at_frame_boundaries[OF g test_handler_song_7 to_bytes4_3 test_wave_first,
      of "\<lambda>k. False"]
  have a: "outgoing (streaming_socket (fst (send_song_data (\<lambda>k. k = 1) 7 test_handler))) =
     [3, 0, 0, 0] @ frame (replicate 4096 1) @ type_exit \<and>
     \<not> stop_send (fst (send_song_data (\<lambda>k. k = 1) 7 test_handler))"
    using thm1[THEN conjunct2, THEN conjunct2, THEN spec, of 1] f o
    by (simp add: test_wave_packets)
  have b: "outgoing (streaming_socket (fst (send_song_data (\<lambda>k. False) 7 test_handler))) =
     [3, 0, 0, 0] @ frame (replicate 4096 1) @ frame (replicate 4096 2) @ frame (replicate 4096 3)"
    using thm2[THEN conjunct2, THEN conjunct1] f o
    by (simp add: test_wave_packets)
  show ?thesis using g test_handler_song_7 to_bytes4_3 f a b by simp
qed

section \<open>Frame counts and packets\<close>

lemma fl64_3071: "fl64 (3071 / 1024) = Some (3071 / 1024)"
proof -
  have "fl64 (of_int 3071 * 2 powi (- 10)) = Some (of_int 3071 * 2 powi (- 10))"
    by (rule fl64_exact) simp_all
  then show ?thesis by simp
qed

lemma fl64_4: "fl64 4 = Some 4"
  using fl64_of_int[of 4] by simp

lemma frame_count_3:
  assumes "0 \<le> n" "true_div n 1024 = Inr x" "py_trunc x = 3"
  shows "3072 \<le> n \<and> n < 4096"
proof -
  have x: "fl64 (of_int n / 1024) = Some x"
    using assms(2) by (auto simp: true_div_def split: option.splits)
  have n0: "(0::rat) \<le> of_int n / 1024" using assms(1) by simp
  have "\<not> n < 3072"
  proof
    assume "n < 3072"
    then have "n \<le> 3071" by simp
    then have "(of_int n :: rat) \<le> of_int 3071" by (simp only: of_int_le_iff)
    then have "(of_int n :: rat) / 1024 \<le> 3071 / 1024" by simp
    from fl64_mono[OF n0 this fl64_3071] x have "0 \<le> x" "x \<le> 3071 / 1024" by auto
    then have "x < of_int 3" by simp
    then have "\<lfloor>x\<rfloor> < 3" by (rule floor_less_iff[THEN iffD2])
    moreover have "py_trunc x = \<lfloor>x\<rfloor>" using \<open>0 \<le> x\<close> by (simp add: py_trunc_def)
    ultimately show False using assms(3) by linarith
  qed
  moreover have "\<not> 4096 \<le> n"
  proof
    assume "4096 \<le> n"
    then have "(of_int 4096 :: rat) \<le> of_int n" by (simp only: of_int_le_iff)
    then have "(4::rat) \<le> of_int n / 1024" by simp
    from fl64_mono[OF _ this x] fl64_4 have "4 \<le> x" by auto
    then have "of_int 4 \<le> x" by simp
    then have "4 \<le> \<lfloor>x\<rfloor>" by (rule le_floor_iff[THEN iffD2])
    moreover have "py_trunc x = \<lfloor>x\<rfloor>" using \<open>4 \<le> x\<close> by (simp add: py_trunc_def)
    ultimately show False using assms(3) by linarith
  qed
  ultimately show ?thesis by simp
qed

lemma song_with_3_frames:
  assumes "get_song_and_length h sid = Inr (Some (w, 3))" "frame_size w = 4"
  shows "catalog h sid = Some w \<and> 12288 \<le> length (audio w) \<and> length (audio w) < 16384"
proof -
  obtain x where c: "catalog h sid = Some w" and x: "true_div (getnframes w) 1024 = Inr x"
    "py_trunc x = 3"
    using assms(1)
    by (auto simp: get_song_and_length_def chunk_def split: option.splits sum.splits)
  have "3072 \<le> getnframes w \<and> getnframes w < 4096"
    using frame_count_3[OF _ x] by (simp add: getnframes_def)
  then have "3072 \<le> length (audio w) div 4" "length (audio w) div 4 < 4096"
    using assms(2) by (simp_all add: getnframes_def)
  then have "12288 \<le> length (audio w) \<and> length (audio w) < 16384" by arith
  then show ?thesis using c by simp
qed

lemma three_packets:
  assumes "frame_size w = 4" "12288 \<le> length (audio w)" "length (audio w) < 16384"
    and "readframes chunk w = (pkt, rest)"
  shows "full_packets pkt rest =
           [take 4096 (audio w), take 4096 (drop 4096 (audio w)), take 4096 (drop 8192 (audio w))]"
proof -
  have pkt: "pkt = take 4096 (audio w)" and rest: "rest = w\<lparr>audio := drop 4096 (audio w)\<rparr>"
    using assms(1,4) by (auto simp: readframes_def chunk_def)
  have l: "length (take 4096 (audio w)) = chunk * 4"
    "length (take 4096 (drop 4096 (audio w))) = chunk * 4"
    "length (take 4096 (drop 8192 (audio w))) = chunk * 4"
    "length (take 4096 (drop 12288 (audio w))) \<noteq> chunk * 4"
    using assms(2,3) by (simp_all add: chunk_def)
  have r: "\<And>n. readframes chunk (w\<lparr>audio := drop n (audio w)\<rparr>) =
      (take 4096 (drop n (audio w)), w\<lparr>audio := drop (n + 4096) (audio w)\<rparr>)"
    using assms(1) by (simp add: readframes_def chunk_def add.commute)
  have "full_packets (take 4096 (drop 12288 (audio w))) (w\<lparr>audio := drop 16384 (audio w)\<rparr>) = []"
    using l(4) by (subst full_packets.simps) simp
  then have "full_packets (take 4096 (drop 8192 (audio w))) (w\<lparr>audio := drop 12288 (audio w)\<rparr>)
      = [take 4096 (drop 8192 (audio w))]"
    using l(3) r[of 12288] by (subst full_packets.simps) simp
  then have "full_packets (take 4096 (drop 4096 (audio w))) (w\<lparr>audio := drop 8192 (audio w)\<rparr>)
      = [take 4096 (drop 4096 (audio w)), take 4096 (drop 8192 (audio w))]"
    using l(2) r[of 8192] by (subst full_packets.simps) simp
  then show ?thesis
    unfolding pkt rest using l(1) r[of 4096] by (subst full_packets.simps) simp
qed

section \<open>MediaPlayer: reading a reply\<close>

lemma mp_streaming_tcp_recv_ok:
  assumes "\<forall>n. 0 < grant (stream_client mp) n" "0 \<le> b"
    and "nat b \<le> length (incoming (stream_client mp))"
  shows "\<exists>mp'. mp_streaming_tcp_recv b mp = (Inr (take (nat b) (incoming (stream_client mp))), mp') \<and>
           incoming (stream_client mp') = drop (nat b) (incoming (stream_client mp)) \<and>
           grant (stream_client mp') = grant (stream_client mp) \<and>
           player mp' = player mp \<and> currently_reading mp' = currently_reading mp"
proof -
  obtain s' where "tcp_recv RuntimeError b (stream_client mp) =
      (Inr (take (nat b) (incoming (stream_client mp))), s')"
    "incoming s' = drop (nat b) (incoming (stream_client mp))"
    "grant s' = grant (stream_client mp)"
    using tcp_recv_all[OF assms] by blast
  then show ?thesis by (simp add: mp_streaming_tcp_recv_def)
qed

lemma read_packets_frames:
  assumes "\<forall>n. 0 < grant (stream_client mp) n"
    and "incoming (stream_client mp) = concat (map frame pkts) @ after"
    and "\<forall>p\<in>set pkts. length p = 4096"
  shows "\<exists>mp'. read_packets (length pkts) mp = (mp', None) \<and>
           player mp' = (player mp)\<lparr>song_data := song_data (player mp) @ pkts\<rparr> \<and>
           incoming (stream_client mp') = after \<and>
           grant (stream_client mp') = grant (stream_client mp)"
  using assms
proof (induction pkts arbitrary: mp)
  case Nil
  then show ?case by simp
next
  case (Cons p pkts)
  have inc: "incoming (stream_client mp) = type_data @ p @ concat (map frame pkts) @ after"
    using Cons.prems(2) frame_def[of p] by simp
  have lp: "length p = 4096" using Cons.prems(3) by simp
  obtain mp1 where mp1: "mp_streaming_tcp_recv 4 mp = (Inr type_data, mp1)"
    "incoming (stream_client mp1) = p @ concat (map frame pkts) @ after"
    "grant (stream_client mp1) = grant (stream_client mp)" "player mp1 = player mp"
    using mp_streaming_tcp_recv_ok[OF Cons.prems(1), of 4] inc type_lengths by auto
  have g1: "\<forall>n. 0 < grant (stream_client mp1) n" using Cons.prems(1) mp1(3) by simp
  obtain mp2 where mp2: "mp_streaming_tcp_recv 4096 mp1 = (Inr p, mp2)"
    "incoming (stream_client mp2) = concat (map frame pkts) @ after"
    "grant (stream_client mp2) = grant (stream_client mp1)" "player mp2 = player mp1"
    using mp_streaming_tcp_recv_ok[OF g1, of 4096] mp1(2) lp by auto
  define mp3 where "mp3 = mp2\<lparr>player := receive_packet p (player mp2)\<rparr>"
  have g3: "\<forall>n. 0 < grant (stream_client mp3) n" using g1 mp2(3) by (simp add: mp3_def)
  have i3: "incoming (stream_client mp3) = concat (map frame pkts) @ after"
    using mp2(2) by (simp add: mp3_def)
  obtain mp' where mp': "read_packets (length pkts) mp3 = (mp', None)"
    "player mp' = (player mp3)\<lparr>song_data := song_data (player mp3) @ pkts\<rparr>"
    "incoming (stream_client mp') = after"
    "grant (stream_client mp') = grant (stream_client mp3)"
    using Cons.IH[OF g3 i3] Cons.prems(3) by auto
  have "read_packets (length (p # pkts)) mp = (mp', None)"
    using mp1(1) mp2(1) mp'(1) by (simp add: mp3_def)
  moreover have "player mp' = (player mp)\<lparr>song_data := song_data (player mp) @ p # pkts\<rparr>"
    using mp'(2) mp2(4) mp1(4) by (simp add: mp3_def receive_packet_def)
  moreover have "grant (stream_client mp') = grant (stream_client mp)"
    using mp'(4) mp2(3) mp1(3) by (simp add: mp3_def)
  ultimately show ?case using mp'(3) by blast
qed

lemma read_from_server_frames:
  assumes "\<forall>n. 0 < grant (stream_client mp) n"
    and "incoming (stream_client mp) = cb @ concat (map frame pkts)"
    and "length cb = 4" "from_bytes cb = int (length pkts)"
    and "\<forall>p\<in>set pkts. length p = 4096"
  shows "snd (read_from_server mp) = None \<and>
         player (fst (read_from_server mp)) =
           (player mp)\<lparr>song_data_length := int (length pkts),
                        last_index := int (length pkts) - 1,
                        song_data := song_data (player mp) @ pkts @ [STOP_CONDITION]\<rparr> \<and>
         incoming (stream_client (fst (read_from_server mp))) = [] \<and>
         currently_reading (fst (read_from_server mp))"
proof -
  define mp0 where "mp0 = mp\<lparr>currently_reading := False, start_read_flag := False\<rparr>"
  have g0: "\<forall>n. 0 < grant (stream_client mp0) n" using assms(1) by (simp add: mp0_def)
  obtain mp1 where mp1: "mp_streaming_tcp_recv 4 mp0 = (Inr cb, mp1)"
    "incoming (stream_client mp1) = concat (map frame pkts)"
    "grant (stream_client mp1) = grant (stream_client mp0)" "player mp1 = player mp0"
    using mp_streaming_tcp_recv_ok[OF g0, of 4] assms(2,3) by (auto simp: mp0_def)
  define mp2 where
    "mp2 = mp1\<lparr>player := set_song_data_length (int (length pkts)) (player mp1)\<rparr>"
  have g2: "\<forall>n. 0 < grant (stream_client mp2) n" using g0 mp1(3) by (simp add: mp2_def)
  have i2: "incoming (stream_client mp2) = concat (map frame pkts) @ []"
    using mp1(2) by (simp add: mp2_def)
  obtain mp3 where mp3: "read_packets (length pkts) mp2 = (mp3, None)"
    "player mp3 = (player mp2)\<lparr>song_data := song_data (player mp2) @ pkts\<rparr>"
    "incoming (stream_client mp3) = []"
    using read_packets_frames[OF g2 i2 assms(5)] by blast
  have "read_from_server mp =
      (mp3\<lparr>player := receive_packet STOP_CONDITION (player mp3), currently_reading := True\<rparr>, None)"
    using mp1(1) mp3(1) assms(4)
    by (simp add: read_from_server_def mp0_def[symmetric] mp2_def[symmetric] Let_def)
  then show ?thesis
    using mp3(2,3) mp1(4)
    by (simp add: mp2_def mp0_def receive_packet_def set_song_data_length_def)
qed

lemma read_from_server_sentinel:
  "\<exists>xs. song_data (player (fst (read_from_server mp))) = xs @ [STOP_CONDITION]"
  by (simp add: read_from_server_def receive_packet_def Let_def split: prod.splits)

section \<open>End to end: a song of three frames\<close>

lemma send_song_data_three:
  assumes "\<forall>n. 0 < grant (streaming_socket h) n"
    and "get_song_and_length h sid = Inr (Some (w, 3))" "frame_size w = 4"
    and "\<forall>k. \<not> flag_read env h k"
  shows "snd (send_song_data env sid h) = None \<and>
         outgoing (streaming_socket (fst (send_song_data env sid h))) =
           outgoing (streaming_socket h) @ [3, 0, 0, 0] @
             concat (map frame [take 4096 (audio w), take 4096 (drop 4096 (audio w)),
                                take 4096 (drop 8192 (audio w))]) \<and>
         12288 \<le> length (audio w)"
proof -
  have w: "12288 \<le> length (audio w)" "length (audio w) < 16384"
    using song_with_3_frames[OF assms(2,3)] by simp_all
  obtain pkt rest where rf: "readframes chunk w = (pkt, rest)" by (cases "readframes chunk w")
  have fp: "full_packets pkt rest =
      [take 4096 (audio w), take 4096 (drop 4096 (audio w)), take 4096 (drop 8192 (audio w))]"
    using three_packets[OF assms(3) w rf] .
  obtain h1 where h1: "send_song_data env sid h = send_packets env 0 pkt rest h1"
    "outgoing (streaming_socket h1) = outgoing (streaming_socket h) @ [3, 0, 0, 0]"
    "grant (streaming_socket h1) = grant (streaming_socket h)"
    "stop_send h1 = stop_send h"
    using send_song_data_found[OF assms(1,2) to_bytes4_3 rf] by blast
  have g1: "\<forall>n. 0 < grant (streaming_socket h1) n" using assms(1) h1(3) by simp
  have "\<forall>k<length (full_packets pkt rest). \<not> (env (0 + k) \<or> (k = 0 \<and> stop_send h1))"
    using assms(4) by (simp add: flag_read_def h1(4))
  from send_packets_all[OF g1 this] show ?thesis using h1(1,2) w(1) unfolding fp by auto
qed

text \<open>
  C7.  The claim does not say how many bytes a frame of the wave file has.  The count
  that the server sends is the number of frames of the file divided by 1024, whatever the
  size of a frame, but the loop of \<open>_send_song_data\<close> sends a packet only if the 1024
  frames read make 4096 bytes.  A file of 3072 frames of two bytes has frame count 3; the
  first read returns 2048 bytes, so the server sends the count and no frame at all, with
  no termination requested and no error.
\<close>

theorem C7_mono_wave_counterexample:
  "get_song_and_length mono_handler 7 = Inr (Some (mono_wave, 3)) \<and>
   getnframes mono_wave = 3072 \<and>
   fst (readframes chunk mono_wave) = replicate 2048 1 \<and>
   \<not> stop_send mono_handler \<and>
   \<not> flag_read never_stop mono_handler 0 \<and>
   snd (send_song_data never_stop 7 mono_handler) = None \<and>
   outgoing (streaming_socket (fst (send_song_data never_stop 7 mono_handler))) = [3, 0, 0, 0] \<and>
   outgoing (streaming_socket (fst (send_song_data never_stop 7 mono_handler))) \<noteq>
     [3, 0, 0, 0] @ type_data @ take 4096 (audio mono_wave)
       @ type_data @ take 4096 (drop 4096 (audio mono_wave))
       @ type_data @ take 4096 (drop 8192 (audio mono_wave))"
proof -
  have g: "\<forall>n. 0 < grant (streaming_socket mono_handler) n"
    by (simp add: mono_handler_def fresh_socket_def)
  have n: "getnframes mono_wave = 3072" by (simp add: getnframes_def mono_wave_def)
  have s: "get_song_and_length mono_handler 7 = Inr (Some (mono_wave, 3))"
    by (simp add: get_song_and_length_def mono_handler_def n chunk_def true_div_3072
          py_trunc_def)
  have rf: "readframes chunk mono_wave =
      (replicate 2048 1, \<lparr>frame_size = 2, audio = replicate 2048 2 @ replicate 2048 3\<rparr>)"
    by (simp add: readframes_def chunk_def mono_wave_def)
  obtain h1 where h1:
    "send_song_data never_stop 7 mono_handler =
       send_packets never_stop 0 (replicate 2048 1)
         \<lparr>frame_size = 2, audio = replicate 2048 2 @ replicate 2048 3\<rparr> h1"
    "outgoing (streaming_socket h1) = outgoing (streaming_socket mono_handler) @ [3, 0, 0, 0]"
    using send_song_data_found[OF g s to_bytes4_3 rf] by blast
  have sp: "send_packets never_stop 0 (replicate 2048 1)
         \<lparr>frame_size = 2, audio = replicate 2048 2 @ replicate 2048 3\<rparr> h1 = (h1, None)"
    by (subst send_packets.simps) (simp add: chunk_def)
  have out: "outgoing (streaming_socket (fst (send_song_data never_stop 7 mono_handler)))
      = [3, 0, 0, 0]"
    using h1 sp by (simp add: mono_handler_def fresh_socket_def)
  have f: "\<not> stop_send mono_handler" "\<not> flag_read never_stop mono_handler 0"
    by (simp_all add: flag_read_def never_stop_def mono_handler_def)
  have e: "snd (send_song_data never_stop 7 mono_handler) = None" using h1 sp by simp
  show ?thesis using s n rf f e out by (simp add: type_data_def encode_def)
qed

text \<open>
  C7, amended.  The server holds the requested song as a wave file of four bytes a frame
  (16 bit, stereo) with frame count 3, and nobody asks to stop; both connections stay up;
  the client's buffer is empty and the client finds on its audio connection what the
  server sends for the request.  Then the server sends the count 3 and three frames, each
  the \<open>data\<close> tag and a packet of 4096 bytes, and the reader leaves the three packets and
  the sentinel in the buffer.  The reader ends every pass by appending the sentinel,
  whatever it has received.
\<close>

theorem C7_three_frames_end_to_end:
  assumes "\<forall>n. 0 < grant (streaming_socket h) n"
    and "get_song_and_length h sid = Inr (Some (w, 3))" "frame_size w = 4"
    and "\<forall>k. \<not> flag_read env h k"
    and "\<forall>n. 0 < grant (stream_client mp) n"
    and "song_data (player mp) = []"
    and "outgoing (streaming_socket (fst (send_song_data env sid h))) =
           outgoing (streaming_socket h) @ incoming (stream_client mp)"
  shows "snd (send_song_data env sid h) = None \<and>
         incoming (stream_client mp) =
           [3, 0, 0, 0] @ type_data @ take 4096 (audio w)
             @ type_data @ take 4096 (drop 4096 (audio w))
             @ type_data @ take 4096 (drop 8192 (audio w)) \<and>
         length (take 4096 (drop 8192 (audio w))) = 4096 \<and>
         snd (read_from_server mp) = None \<and>
         song_data (player (fst (read_from_server mp))) =
           [take 4096 (audio w), take 4096 (drop 4096 (audio w)),
            take 4096 (drop 8192 (audio w)), STOP_CONDITION] \<and>
         song_data_length (player (fst (read_from_server mp))) = 3 \<and>
         (\<exists>xs. song_data (player (fst (read_from_server mp'))) = xs @ [STOP_CONDITION])"
proof -
  let ?pkts = "[take 4096 (audio w), take 4096 (drop 4096 (audio w)),
                take 4096 (drop 8192 (audio w))]"
  have s: "snd (send_song_data env sid h) = None"
    "outgoing (streaming_socket (fst (send_song_data env sid h))) =
       outgoing (streaming_socket h) @ [3, 0, 0, 0] @ concat (map frame ?pkts)"
    "12288 \<le> length (audio w)"
    using send_song_data_three[OF assms(1-4)] by simp_all
  have inc: "incoming (stream_client mp) = [3, 0, 0, 0] @ concat (map frame ?pkts)"
    using s(2) assms(7) by simp
  have len: "\<forall>p\<in>set ?pkts. length p = 4096" using s(3) by simp
  have fb: "from_bytes [3, 0, 0, 0] = int (length ?pkts)" by simp
  have r: "snd (read_from_server mp) = None"
    "player (fst (read_from_server mp)) =
           (player mp)\<lparr>song_data_length := int (length ?pkts),
                        last_index := int (length ?pkts) - 1,
                        song_data := song_data (player mp) @ ?pkts @ [STOP_CONDITION]\<rparr>"
    using read_from_server_frames[OF assms(5) inc _ fb len] by simp_all
  show ?thesis
    using s(1,3) inc r assms(6) read_from_server_sentinel[of mp'] by (simp add: frame_def)
qed

lemma test_transfer:
  "outgoing (streaming_socket (fst (send_song_data (\<lambda>k. False) 7 test_handler))) =
     outgoing (streaming_socket test_handler) @ incoming (stream_client test_client)"
proof -
  have g: "\<forall>n. 0 < grant (streaming_socket test_handler) n"
    by (simp add: test_handler_def fresh_socket_def)
  have f: "\<forall>k. \<not> flag_read (\<lambda>k. False) test_handler k"
    by (simp add: flag_read_def test_handler_def)
  have "frame_size test_wave = 4" by (simp add: test_wave_def)
  from send_song_data_three[OF g test_handler_song_7 this f]
  show ?thesis
    by (simp add: test_client_def test_reply_def test_wave_def)
qed

theorem C7_three_frames_end_to_end_witness:
  "(\<forall>n. 0 < grant (streaming_socket test_handler) n) \<and>
   get_song_and_length test_handler 7 = Inr (Some (test_wave, 3)) \<and>
   frame_size test_wave = 4 \<and>
   (\<forall>k. \<not> flag_read (\<lambda>k. False) test_handler k) \<and>
   (\<forall>n. 0 < grant (stream_client test_client) n) \<and>
   song_data (player test_client) = [] \<and>
   snd (send_song_data (\<lambda>k. False) 7 test_handler) = None \<and>
   snd (read_from_server test_client) = None \<and>
   song_data (player (fst (read_from_server test_client))) =
     [replicate 4096 1, replicate 4096 2, replicate 4096 3, STOP_CONDITION]"
proof -
  have h1: "\<forall>n. 0 < grant (streaming_socket test_handler) n"
    by (simp add: test_handler_def fresh_socket_def)
  have h3: "frame_size test_wave = 4" by (simp add: test_wave_def)
  have h4: "\<forall>k. \<not> flag_read (\<lambda>k. False) test_handler k"
    by (simp add: flag_read_def test_handler_def)
  have h5: "\<forall>n. 0 < grant (stream_client test_client) n"
    by (simp add: test_client_def fresh_socket_def)
  have h6: "song_data (player test_client) = []"
    by (simp add: test_client_def new_mediaplayer_def new_player_def)
  note h = h1 test_handler_song_7 h3 h4 h5 h6
  show ?thesis
    using h C7_three_frames_end_to_end[OF h test_transfer, of test_client]
    by (simp add: test_wave_def)
qed

section \<open>End to end: a song that is not in the catalog\<close>

lemma send_song_data_absent:
  assumes "catalog h sid = None" "\<forall>n. 0 < grant (streaming_socket h) n"
  shows "snd (send_song_data env sid h) = None \<and>
         outgoing (streaming_socket (fst (send_song_data env sid h))) =
           outgoing (streaming_socket h) @ [0, 0, 0, 0] \<and>
         stop_send (fst (send_song_data env sid h)) = stop_send h"
proof -
  obtain h1 where "streaming_tcp_send [0, 0, 0, 0] 4 h = (h1, None)"
    "outgoing (streaming_socket h1) = outgoing (streaming_socket h) @ [0, 0, 0, 0]"
    "stop_send h1 = stop_send h"
    using streaming_tcp_send_ok[OF assms(2), of 4 "[0, 0, 0, 0]"] by auto
  then show ?thesis
    using assms(1) by (simp add: send_song_data_def get_song_and_length_def to_bytes4_0)
qed

lemma stream_loop_once_empty:
  assumes "song_data p = []" "stream_loop_continue p"
  shows "snd (stream_loop_once p) = Waiting \<and>
         device (fst (stream_loop_once p)) = device p \<and>
         progress_sent (fst (stream_loop_once p)) = progress_sent p"
  using assms
  by (simp add: stream_loop_once_def set_start_conditions_def stream_inner.simps py_index_def)

lemma stream_loop_once_sentinel:
  assumes "song_data p = [STOP_CONDITION]" "stream_loop_continue p"
  shows "snd (stream_loop_once p) = Ended \<and>
         device (fst (stream_loop_once p)) = device p \<and>
         progress_sent (fst (stream_loop_once p)) = progress_sent p \<and>
         end_of_stream_event (fst (stream_loop_once p)) = end_of_stream_event p \<and>
         terminate_stream_event (fst (stream_loop_once p))"
  using assms
  by (simp add: stream_loop_once_def set_start_conditions_def set_end_conditions_def
        stream_inner.simps py_index_def)

text \<open>
  C8.  The requested song is not in the catalog; both connections stay up; the client's
  buffer is empty and the client finds on its audio connection what the server sends for
  the request.  The server sends the four bytes of a zero count and nothing else.  The
  reader raises nothing and leaves only the sentinel in the buffer.  The player's stream,
  run before the sentinel has arrived, waits without writing; run on the sentinel, it
  ends without writing a packet to the audio device, without a progress callback and
  without raising.
\<close>

theorem C8_absent_song_is_skipped:
  assumes "catalog h sid = None"
    and "\<forall>n. 0 < grant (streaming_socket h) n"
    and "\<forall>n. 0 < grant (stream_client mp) n"
    and "song_data (player mp) = []" "stream_loop_continue (player mp)"
    and "outgoing (streaming_socket (fst (send_song_data env sid h))) =
           outgoing (streaming_socket h) @ incoming (stream_client mp)"
  shows "snd (send_song_data env sid h) = None \<and>
         incoming (stream_client mp) = [0, 0, 0, 0] \<and>
         snd (read_from_server mp) = None \<and>
         song_data (player (fst (read_from_server mp))) = [STOP_CONDITION] \<and>
         song_data_length (player (fst (read_from_server mp))) = 0 \<and>
         snd (stream_loop_once (player mp)) = Waiting \<and>
         device (fst (stream_loop_once (player mp))) = device (player mp) \<and>
         snd (stream_loop_once (player (fst (read_from_server mp)))) = Ended \<and>
         device (fst (stream_loop_once (player (fst (read_from_server mp))))) = device (player mp) \<and>
         progress_sent (fst (stream_loop_once (player (fst (read_from_server mp)))))
           = progress_sent (player mp)"
proof -
  have s: "snd (send_song_data env sid h) = None"
    "outgoing (streaming_socket (fst (send_song_data env sid h))) =
           outgoing (streaming_socket h) @ [0, 0, 0, 0]"
    using send_song_data_absent[OF assms(1,2)] by simp_all
  have inc: "incoming (stream_client mp) = [0, 0, 0, 0] @ concat (map frame [])"
    using s(2) assms(6) by simp
  have r: "snd (read_from_server mp) = None"
    "player (fst (read_from_server mp)) =
       (player mp)\<lparr>song_data_length := int (length ([] :: byte list list)),
                    last_index := int (length ([] :: byte list list)) - 1,
                    song_data := song_data (player mp) @ [] @ [STOP_CONDITION]\<rparr>"
    using read_from_server_frames[OF assms(3) inc] by simp_all
  define p where "p = player (fst (read_from_server mp))"
  have p: "song_data p = [STOP_CONDITION]" "stream_loop_continue p" "device p = device (player mp)"
    "progress_sent p = progress_sent (player mp)" "song_data_length p = 0"
    using r(2) assms(4,5) by (simp_all add: p_def)
  show ?thesis
    using s(1) inc r(1) p stream_loop_once_empty[OF assms(4,5)]
      stream_loop_once_sentinel[OF p(1,2)]
    by (simp add: p_def[symmetric])
qed

lemma not_found_transfer:
  "outgoing (streaming_socket (fst (send_song_data (\<lambda>k. False) 8 test_handler))) =
     outgoing (streaming_socket test_handler) @ incoming (stream_client not_found_client)"
proof -
  have g: "\<forall>n. 0 < grant (streaming_socket test_handler) n"
    by (simp add: test_handler_def fresh_socket_def)
  have c: "catalog test_handler 8 = None" by (simp add: test_handler_def)
  from send_song_data_absent[OF c g] show ?thesis
    by (simp add: not_found_client_def fresh_socket_def)
qed

theorem C8_absent_song_is_skipped_witness:
  "catalog test_handler 8 = None \<and>
   (\<forall>n. 0 < grant (streaming_socket test_handler) n) \<and>
   (\<forall>n. 0 < grant (stream_client not_found_client) n) \<and>
   song_data (player not_found_client) = [] \<and>
   stream_loop_continue (player not_found_client) \<and>
   snd (send_song_data (\<lambda>k. False) 8 test_handler) = None \<and>
   snd (read_from_server not_found_client) = None \<and>
   song_data (player (fst (read_from_server not_found_client))) = [STOP_CONDITION] \<and>
   snd (stream_loop_once (player (fst (read_from_server not_found_client)))) = Ended \<and>
   device (fst (stream_loop_once (player (fst (read_from_server not_found_client))))) = []"
proof -
  have h1: "catalog test_handler 8 = None" by (simp add: test_handler_def)
  have h2: "\<forall>n. 0 < grant (streaming_socket test_handler) n"
    by (simp add: test_handler_def fresh_socket_def)
  have h3: "\<forall>n. 0 < grant (stream_client not_found_client) n"
    by (simp add: not_found_client_def fresh_socket_def)
  have h4: "song_data (player not_found_client) = []"
    by (simp add: not_found_client_def new_mediaplayer_def new_player_def)
  have h5: "stream_loop_continue (player not_found_client)"
    by (simp add: not_found_client_def new_mediaplayer_def new_player_def)
  have d: "device (player not_found_client) = []"
    by (simp add: not_found_client_def new_mediaplayer_def new_player_def)
  show ?thesis
    using h1 h2 h3 h4 h5 d
      C8_absent_song_is_skipped[OF h1 h2 h3 h4 h5 not_found_transfer]
    by simp
qed

section \<open>Chunked transfer of a serialized song\<close>

lemma communication_tcp_send_ok:
  assumes "\<forall>n. 0 < grant (communication_socket h) n" "buf_size = int (length data)"
  shows "\<exists>h'. communication_tcp_send data buf_size h = (h', None) \<and>
           outgoing (communication_socket h') = outgoing (communication_socket h) @ data \<and>
           grant (communication_socket h') = grant (communication_socket h)"
proof -
  obtain s' where "tcp_send ConnectionResetError data buf_size (communication_socket h) = (s', None)"
    "outgoing s' = outgoing (communication_socket h) @ data"
    "grant s' = grant (communication_socket h)"
    using tcp_send_all[OF assms] by blast
  then show ?thesis by (simp add: communication_tcp_send_def)
qed

lemma true_div_1024_exact:
  assumes "0 \<le> n" "n < 2 ^ 53"
  shows "true_div n 1024 = Inr (of_int n / 1024)"
proof (cases "n = 0")
  case True
  then show ?thesis by (simp add: true_div_def fl64_def)
next
  case False
  then have n: "0 < n" using assms by simp
  have "(of_int n :: rat) < of_int (2 ^ 53)" using assms(2) by (simp only: of_int_less_iff)
  then have "(of_int n :: rat) * 2 powi (- 10) < 2 ^ 1024" by simp
  from fl64_exact[OF n assms(2) _ this]
  have "fl64 (of_int n * 2 powi (- 10)) = Some (of_int n * 2 powi (- 10))" by simp
  then show ?thesis by (simp add: true_div_def)
qed

lemma chunk_count_bounds:
  fixes L :: nat
  shows "1024 * ((L + 1023) div 1024) \<le> L + 1023 \<and> L + 1023 < 1024 * ((L + 1023) div 1024) + 1024"
  by arith

lemma py_ceil_1024: "py_ceil (of_nat L / 1024) = int ((L + 1023) div 1024)"
proof -
  define N where "N = (L + 1023) div 1024"
  have b: "1024 * N \<le> L + 1023" "L + 1023 < 1024 * N + 1024"
    using chunk_count_bounds[of L] by (simp_all add: N_def)
  have "L \<le> 1024 * N" using b(2) by simp
  then have "(of_nat L :: rat) \<le> of_nat (1024 * N)" by (simp only: of_nat_le_iff)
  then have up: "(of_nat L :: rat) / 1024 \<le> of_int (int N)" by simp
  have "1024 * N < L + 1024" using b(1) by simp
  then have "(of_nat (1024 * N) :: rat) < of_nat (L + 1024)" by (simp only: of_nat_less_iff)
  then have lo: "of_int (int N) - 1 < (of_nat L :: rat) / 1024" by simp
  have "\<lceil>(of_nat L :: rat) / 1024\<rceil> = int N" using lo up by (rule ceiling_unique)
  then show ?thesis by (simp add: py_ceil_def N_def)
qed

lemma slice_song_bytes_exact:
  assumes "int (length payload) < 2 ^ 53"
  shows "slice_song_bytes payload =
     Inr (map (\<lambda>i. take 1024 (drop (i * 1024) payload)) [0 ..< (length payload + 1023) div 1024],
          int ((length payload + 1023) div 1024))"
  using true_div_1024_exact[of "int (length payload)"] assms
  by (simp add: slice_song_bytes_def py_ceil_1024 Let_def)

lemma send_chunks_ok:
  assumes "\<forall>n. 0 < grant (communication_socket h) n"
    and "\<forall>i\<in>set is. i < length data \<and> length (data ! i) = 1024"
  shows "\<exists>h'. send_chunks data is h = (h', None) \<and>
           outgoing (communication_socket h') =
             outgoing (communication_socket h) @ concat (map ((!) data) is) \<and>
           grant (communication_socket h') = grant (communication_socket h)"
  using assms
proof (induction "is" arbitrary: h)
  case Nil
  then show ?case by simp
next
  case (Cons i "is")
  have i: "i < length data" "length (data ! i) = 1024" using Cons.prems(2) by simp_all
  obtain h1 where h1: "communication_tcp_send (data ! i) 1024 h = (h1, None)"
    "outgoing (communication_socket h1) = outgoing (communication_socket h) @ data ! i"
    "grant (communication_socket h1) = grant (communication_socket h)"
    using communication_tcp_send_ok[OF Cons.prems(1), of 1024 "data ! i"] i(2) by auto
  have g1: "\<forall>n. 0 < grant (communication_socket h1) n" using Cons.prems(1) h1(3) by simp
  obtain h' where h': "send_chunks data is h1 = (h', None)"
    "outgoing (communication_socket h') =
       outgoing (communication_socket h1) @ concat (map ((!) data) is)"
    "grant (communication_socket h') = grant (communication_socket h1)"
    using Cons.IH[OF g1] Cons.prems(2) by auto
  show ?case using i(1) h1 h' by simp
qed

lemma recv_chunks_ok:
  assumes "\<forall>k. 0 < grant s k" "1024 * n \<le> length (incoming s)"
  shows "\<exists>s'. recv_chunks n acc s = (Inr (acc @ take (1024 * n) (incoming s)), s') \<and>
           incoming s' = drop (1024 * n) (incoming s) \<and> grant s' = grant s"
  using assms
proof (induction n arbitrary: acc s)
  case 0
  then show ?case by simp
next
  case (Suc n)
  have "nat 1024 \<le> length (incoming s)" using Suc.prems(2) by simp
  then obtain s1 where s1:
    "ctl_communication_tcp_recv 1024 s = (Inr (take (nat 1024) (incoming s)), s1)"
    "incoming s1 = drop (nat 1024) (incoming s)" "grant s1 = grant s"
    using tcp_recv_all[OF Suc.prems(1), of 1024 RuntimeError]
    by (auto simp: ctl_communication_tcp_recv_def)
  have g1: "\<forall>k. 0 < grant s1 k" using Suc.prems(1) s1(3) by simp
  have l1: "1024 * n \<le> length (incoming s1)" using Suc.prems(2) s1(2) by simp
  obtain s' where s': "recv_chunks n (acc @ take 1024 (incoming s)) s1 =
      (Inr ((acc @ take 1024 (incoming s)) @ take (1024 * n) (incoming s1)), s')"
    "incoming s' = drop (1024 * n) (incoming s1)" "grant s' = grant s1"
    using Suc.IH[OF g1 l1, of "acc @ take 1024 (incoming s)"] by blast
  have "take 1024 (incoming s) @ take (1024 * n) (drop 1024 (incoming s))
      = take (1024 * Suc n) (incoming s)"
    by (metis add.commute mult_Suc_right take_add)
  moreover have "drop (1024 * n) (drop 1024 (incoming s)) = drop (1024 * Suc n) (incoming s)"
    by (simp add: add.commute)
  ultimately show ?case using s1 s' by simp
qed

lemma concat_chunks:
  "n * 1024 \<le> length xs \<Longrightarrow>
   concat (map (\<lambda>i. take 1024 (drop (i * 1024) xs)) [0 ..< n]) = take (n * 1024) xs"
proof (induction n)
  case 0
  then show ?case by simp
next
  case (Suc n)
  then have "concat (map (\<lambda>i. take 1024 (drop (i * 1024) xs)) [0 ..< n]) = take (n * 1024) xs"
    by simp
  moreover have "take (n * 1024) xs @ take 1024 (drop (n * 1024) xs) = take (Suc n * 1024) xs"
    by (metis add.commute mult_Suc take_add)
  ultimately show ?case by simp
qed

lemma send_serialized_song_ok:
  assumes L: "1 \<le> length payload" "length payload \<le> 1024 * 4294967295"
    and g: "\<forall>n. 0 < grant (communication_socket h) n"
  defines "N \<equiv> (length payload + 1023) div 1024"
  shows "\<exists>cb lb. snd (send_serialized_song payload h) = None \<and>
           outgoing (communication_socket (fst (send_serialized_song payload h))) =
             outgoing (communication_socket h) @ cb @ take ((N - 1) * 1024) payload
               @ lb @ drop ((N - 1) * 1024) payload \<and>
           length cb = 4 \<and> from_bytes cb = int N \<and> length lb = 4 \<and>
           from_bytes lb = int (length payload - (N - 1) * 1024) \<and>
           1 \<le> N \<and> (N - 1) * 1024 < length payload"
proof -
  define f where "f = (\<lambda>i. take 1024 (drop (i * 1024) payload))"
  define data where "data = map f [0 ..< N]"
  have b: "1024 * N \<le> length payload + 1023" "length payload + 1023 < 1024 * N + 1024"
    using chunk_count_bounds[of "length payload"] by (simp_all add: N_def)
  have N1: "1 \<le> N" using L(1) b(2) by simp
  have N32: "int N < 2 ^ 32" using L(2) b(1) by simp
  have lt: "(N - 1) * 1024 < length payload" using b(1) N1 by (simp add: algebra_simps)
  have le: "length payload \<le> N * 1024" using b(2) by simp
  have "int (length payload) < 2 ^ 53" using L(2) by simp
  then have sl: "slice_song_bytes payload = Inr (data, int N)"
    using slice_song_bytes_exact[of payload] by (simp add: data_def f_def N_def)
  obtain cb where cb: "to_bytes4 (int N) = Inr cb" "length cb = 4" "from_bytes cb = int N"
    using from_to_bytes4[of "int N"] N32 by auto
  have ld: "length data = N" by (simp add: data_def)
  have dne: "data \<noteq> []" using N1 ld by auto
  have nth: "\<And>i. i < N \<Longrightarrow> data ! i = f i" by (simp add: data_def)
  have full: "\<forall>i\<in>set [0 ..< N - 1]. i < length data \<and> length (data ! i) = 1024"
  proof
    fix i assume "i \<in> set [0 ..< N - 1]"
    then have i: "i < N - 1" by simp
    then have "(i + 1) * 1024 \<le> (N - 1) * 1024" by simp
    then have "i * 1024 + 1024 \<le> length payload" using lt by simp
    then have "length (f i) = 1024" by (simp add: f_def)
    then show "i < length data \<and> length (data ! i) = 1024" using i nth[of i] ld by simp
  qed
  have first: "concat (map ((!) data) [0 ..< N - 1]) = take ((N - 1) * 1024) payload"
  proof -
    have m: "map ((!) data) [0 ..< N - 1] = map f [0 ..< N - 1]"
      using nth by (intro map_cong) simp_all
    have c: "concat (map f [0 ..< N - 1]) = take ((N - 1) * 1024) payload"
      unfolding f_def using lt by (intro concat_chunks) simp
    show ?thesis unfolding m by (rule c)
  qed
  have lst: "last data = drop ((N - 1) * 1024) payload"
  proof -
    have "last data = data ! (N - 1)" using dne ld by (simp add: last_conv_nth)
    also have "\<dots> = f (N - 1)" using N1 nth[of "N - 1"] by simp
    also have "\<dots> = drop ((N - 1) * 1024) payload"
      using le N1 by (simp add: f_def algebra_simps)
    finally show ?thesis .
  qed
  define ll where "ll = length payload - (N - 1) * 1024"
  have ll: "length (last data) = ll" by (simp add: lst ll_def)
  have "(N - 1) * 1024 + 1024 = N * 1024" using N1 by (cases N) simp_all
  then have "ll \<le> 1024" using le by (simp add: ll_def)
  then have "int ll < 2 ^ 32" by simp
  then obtain lb where lb: "to_bytes4 (int ll) = Inr lb" "length lb = 4" "from_bytes lb = int ll"
    using from_to_bytes4[of "int ll"] by auto
  obtain h1 where h1: "communication_tcp_send cb 4 h = (h1, None)"
    "outgoing (communication_socket h1) = outgoing (communication_socket h) @ cb"
    "grant (communication_socket h1) = grant (communication_socket h)"
    using communication_tcp_send_ok[OF g, of 4 cb] cb(2) by auto
  have g1: "\<forall>n. 0 < grant (communication_socket h1) n" using g h1(3) by simp
  obtain h2 where h2: "send_chunks data [0 ..< N - 1] h1 = (h2, None)"
    "outgoing (communication_socket h2) =
       outgoing (communication_socket h1) @ concat (map ((!) data) [0 ..< N - 1])"
    "grant (communication_socket h2) = grant (communication_socket h1)"
    using send_chunks_ok[OF g1 full] by blast
  have g2: "\<forall>n. 0 < grant (communication_socket h2) n" using g1 h2(3) by simp
  obtain h3 where h3: "communication_tcp_send lb 4 h2 = (h3, None)"
    "outgoing (communication_socket h3) = outgoing (communication_socket h2) @ lb"
    "grant (communication_socket h3) = grant (communication_socket h2)"
    using communication_tcp_send_ok[OF g2, of 4 lb] lb(2) by auto
  have g3: "\<forall>n. 0 < grant (communication_socket h3) n" using g2 h3(3) by simp
  obtain h4 where h4: "communication_tcp_send (last data) (int ll) h3 = (h4, None)"
    "outgoing (communication_socket h4) = outgoing (communication_socket h3) @ last data"
    using communication_tcp_send_ok[OF g3, of "int ll" "last data"] ll by auto
  have range: "[0 ..< nat (int N - 1)] = [0 ..< N - 1]" using N1 by (simp add: nat_diff_distrib)
  have "send_serialized_song payload h = (h4, None)"
    using sl cb(1) h1(1) h2(1) dne ll lb(1) h3(1) h4(1)
    by (simp add: send_serialized_song_def range Let_def)
  moreover have "outgoing (communication_socket h4) =
      outgoing (communication_socket h) @ cb @ take ((N - 1) * 1024) payload
        @ lb @ drop ((N - 1) * 1024) payload"
    using h4(2) h3(2) h2(2) h1(2) first lst by simp
  ultimately show ?thesis using cb(2,3) lb(2,3) N1 lt unfolding ll_def by auto
qed

lemma recv_serialized_song_ok:
  assumes g: "\<forall>n. 0 < grant c n"
    and inc: "incoming c = cb @ A @ lb @ B"
    and cb: "length cb = 4" "from_bytes cb = int N" "1 \<le> N"
    and A: "length A = (N - 1) * 1024"
    and lb: "length lb = 4" "from_bytes lb = int (length B)"
  shows "fst (recv_serialized_song c) = Inr (A @ B) \<and>
         incoming (snd (recv_serialized_song c)) = []"
proof -
  obtain s1 where s1: "ctl_communication_tcp_recv 4 c = (Inr cb, s1)"
    "incoming s1 = A @ lb @ B" "grant s1 = grant c"
    using tcp_recv_all[OF g, of 4 RuntimeError] inc cb(1)
    by (auto simp: ctl_communication_tcp_recv_def)
  have g1: "\<forall>n. 0 < grant s1 n" using g s1(3) by simp
  have n1: "nat (from_bytes cb - 1) = N - 1" using cb(2,3) by (simp add: nat_diff_distrib)
  have "1024 * (N - 1) \<le> length (incoming s1)" using s1(2) A by simp
  from recv_chunks_ok[OF g1 this, of "[]"]
  obtain s2 where s2: "recv_chunks (N - 1) [] s1 = (Inr A, s2)"
    "incoming s2 = lb @ B" "grant s2 = grant s1"
    using s1(2) A by (auto simp: mult.commute)
  have g2: "\<forall>n. 0 < grant s2 n" using g1 s2(3) by simp
  obtain s3 where s3: "ctl_communication_tcp_recv 4 s2 = (Inr lb, s3)"
    "incoming s3 = B" "grant s3 = grant s2"
    using tcp_recv_all[OF g2, of 4 RuntimeError] s2(2) lb(1)
    by (auto simp: ctl_communication_tcp_recv_def)
  have g3: "\<forall>n. 0 < grant s3 n" using g2 s3(3) by simp
  obtain s4 where s4: "ctl_communication_tcp_recv (int (length B)) s3 = (Inr B, s4)"
    "incoming s4 = []"
    using tcp_recv_all[OF g3, of "int (length B)" RuntimeError] s3(2)
    by (auto simp: ctl_communication_tcp_recv_def)
  have "recv_serialized_song c = (Inr (A @ B), s4)"
    using s1(1) n1 s2(1) s3(1) lb(2) s4(1) by (simp add: recv_serialized_song_def)
  then show ?thesis using s4(2) by simp
qed

lemma chunked_round_trip:
  assumes "1 \<le> length payload" "length payload \<le> 1024 * 4294967295"
    and "\<forall>n. 0 < grant (communication_socket h) n"
    and "\<forall>n. 0 < grant c n"
    and "outgoing (communication_socket (fst (send_serialized_song payload h))) =
           outgoing (communication_socket h) @ incoming c"
  shows "snd (send_serialized_song payload h) = None \<and>
         fst (recv_serialized_song c) = Inr payload \<and>
         incoming (snd (recv_serialized_song c)) = []"
proof -
  define N where "N = (length payload + 1023) div 1024"
  obtain cb lb where s: "snd (send_serialized_song payload h) = None"
    "outgoing (communication_socket (fst (send_serialized_song payload h))) =
       outgoing (communication_socket h) @ cb @ take ((N - 1) * 1024) payload
         @ lb @ drop ((N - 1) * 1024) payload"
    "length cb = 4" "from_bytes cb = int N" "length lb = 4"
    "from_bytes lb = int (length payload - (N - 1) * 1024)"
    "1 \<le> N" "(N - 1) * 1024 < length payload"
    using send_serialized_song_ok[OF assms(1-3)] unfolding N_def by blast
  have inc: "incoming c = cb @ take ((N - 1) * 1024) payload @ lb @ drop ((N - 1) * 1024) payload"
    using s(2) assms(5) by simp
  have A: "length (take ((N - 1) * 1024) payload) = (N - 1) * 1024" using s(8) by simp
  have B: "from_bytes lb = int (length (drop ((N - 1) * 1024) payload))" using s(6) by simp
  from recv_serialized_song_ok[OF assms(4) inc s(3,4,7) A s(5) B]
  show ?thesis using s(1) by simp
qed

lemma true_div_0: "true_div 0 1024 = Inr 0"
  by (simp add: true_div_def fl64_def)

lemma test_handler_control:
  "\<forall>n. 0 < grant (communication_socket test_handler) n"
  "outgoing (communication_socket test_handler) = []"
  by (simp_all add: test_handler_def fresh_socket_def)

text \<open>
  C2.  The claim includes the payload of length 0.  \<open>slice_song_bytes\<close> returns no chunk
  for it, and the sender, having sent the chunk count 0, raises IndexError at \<open>data[-1]\<close>:
  nothing follows the count, so there is nothing to decode.
\<close>

theorem C2_empty_payload_counterexample:
  "length ([] :: byte list) \<in> {0, 1, 1023, 1024, 1025, 2049} \<and>
   slice_song_bytes [] = Inr ([], 0) \<and>
   snd (send_serialized_song [] test_handler) = Some IndexError \<and>
   outgoing (communication_socket (fst (send_serialized_song [] test_handler))) = [0, 0, 0, 0]"
proof -
  have sl: "slice_song_bytes [] = Inr ([], 0)"
    by (simp add: slice_song_bytes_def true_div_0 py_ceil_def)
  obtain h1 where h1: "communication_tcp_send [0, 0, 0, 0] 4 test_handler = (h1, None)"
    "outgoing (communication_socket h1) = outgoing (communication_socket test_handler) @ [0, 0, 0, 0]"
    using communication_tcp_send_ok[OF test_handler_control(1), of 4 "[0, 0, 0, 0]"] by auto
  have "send_serialized_song [] test_handler = (h1, Some IndexError)"
    using sl h1(1) by (simp add: send_serialized_song_def to_bytes4_0)
  then show ?thesis using sl h1(2) test_handler_control(2) by simp
qed

text \<open>
  C2, amended.  For every payload of length 1, 1023, 1024, 1025 or 2049, on connections
  that stay up: the sender raises nothing, and the receiver, reading what the sender has
  sent, returns exactly the payload and leaves nothing unread.
\<close>

theorem C2_chunked_round_trip:
  assumes "length payload \<in> {1, 1023, 1024, 1025, 2049}"
    and "\<forall>n. 0 < grant (communication_socket h) n"
    and "\<forall>n. 0 < grant c n"
    and "outgoing (communication_socket (fst (send_serialized_song payload h))) =
           outgoing (communication_socket h) @ incoming c"
  shows "snd (send_serialized_song payload h) = None \<and>
         fst (recv_serialized_song c) = Inr payload \<and>
         incoming (snd (recv_serialized_song c)) = []"
proof -
  have "1 \<le> length payload" "length payload \<le> 1024 * 4294967295"
    using assms(1) by auto
  then show ?thesis using assms(2-4) by (rule chunked_round_trip)
qed

lemma test_control_transfer:
  "outgoing (communication_socket (fst (send_serialized_song [65] test_handler))) =
     outgoing (communication_socket test_handler) @ incoming test_control_socket"
proof -
  have sl: "slice_song_bytes [65] = Inr ([[65]], 1)"
    using slice_song_bytes_exact[of "[65]"] by simp
  have b: "to_bytes4 1 = Inr [1, 0, 0, 0]" by (simp add: to_bytes4_def)
  obtain h1 where h1: "communication_tcp_send [1, 0, 0, 0] 4 test_handler = (h1, None)"
    "outgoing (communication_socket h1) = outgoing (communication_socket test_handler) @ [1, 0, 0, 0]"
    "grant (communication_socket h1) = grant (communication_socket test_handler)"
    using communication_tcp_send_ok[OF test_handler_control(1), of 4 "[1, 0, 0, 0]"] by auto
  have g1: "\<forall>n. 0 < grant (communication_socket h1) n"
    using test_handler_control(1) h1(3) by simp
  obtain h2 where h2: "communication_tcp_send [1, 0, 0, 0] 4 h1 = (h2, None)"
    "outgoing (communication_socket h2) = outgoing (communication_socket h1) @ [1, 0, 0, 0]"
    "grant (communication_socket h2) = grant (communication_socket h1)"
    using communication_tcp_send_ok[OF g1, of 4 "[1, 0, 0, 0]"] by auto
  have g2: "\<forall>n. 0 < grant (communication_socket h2) n" using g1 h2(3) by simp
  obtain h3 where h3: "communication_tcp_send [65] 1 h2 = (h3, None)"
    "outgoing (communication_socket h3) = outgoing (communication_socket h2) @ [65]"
    using communication_tcp_send_ok[OF g2, of 1 "[65]"] by auto
  have "send_serialized_song [65] test_handler = (h3, None)"
    using sl b h1(1) h2(1) h3(1) by (simp add: send_serialized_song_def)
  then show ?thesis
    using h1(2) h2(2) h3(2) by (simp add: test_control_socket_def fresh_socket_def)
qed

theorem C2_chunked_round_trip_witness:
  "length ([65] :: byte list) \<in> {1, 1023, 1024, 1025, 2049} \<and>
   (\<forall>n. 0 < grant (communication_socket test_handler) n) \<and>
   (\<forall>n. 0 < grant test_control_socket n) \<and>
   snd (send_serialized_song [65] test_handler) = None \<and>
   fst (recv_serialized_song test_control_socket) = Inr [65] \<and>
   incoming (snd (recv_serialized_song test_control_socket)) = []"
proof -
  have h1: "length ([65] :: byte list) \<in> {1, 1023, 1024, 1025, 2049}" by simp
  have h3: "\<forall>n. 0 < grant test_control_socket n"
    by (simp add: test_control_socket_def fresh_socket_def)
  show ?thesis
    using h1 test_handler_control(1) h3
      C2_chunked_round_trip[OF h1 test_handler_control(1) h3 test_control_transfer]
    by simp
qed


end
